theory Spec2Isabelle
  imports Main "HOL-Library.Multiset"
begin

section \<open>The build command of faas-cli: data\<close>

text \<open>
  \<^verbatim>\<open>stack.Function\<close> as \<^verbatim>\<open>commands/build.go\<close> reads it: the worker reads
  \<^verbatim>\<open>Name\<close>, \<^verbatim>\<open>Language\<close>, \<^verbatim>\<open>Handler\<close> and \<^verbatim>\<open>Image\<close>, the producer reads
  \<^verbatim>\<open>SkipBuild\<close> and writes \<^verbatim>\<open>Name\<close>. The other fields of the struct are never
  touched by \<^verbatim>\<open>build\<close>.
\<close>

record Function =
  Name :: string
  Language :: string
  Handler :: string
  Image :: string
  SkipBuild :: bool

text \<open>
  Everything the dispatch writes, in the order it is written: the lines printed to
  standard output and the calls of \<^verbatim>\<open>builder.BuildImage\<close>, whose eight arguments
  are kept in the order of the call.
\<close>

datatype event =
    Skipping string
  | Building int string
  | NoLanguage
  | BuildImage string string string string bool bool bool "string \<rightharpoonup> string"
  | BuildingDone int string
  | WorkerDone int

text \<open>
  The arguments of \<^verbatim>\<open>build(services, queueDepth, shrinkwrap)\<close> and the package-level
  flags it reads. \<^verbatim>\<open>services.Functions\<close> is a Go map: \<open>Functions\<close> lists its entries
  in the order in which this run's \<^verbatim>\<open>range\<close> visits them. \<open>fatal\<close> says for which
  calls the Build Executor ends the process (\<^verbatim>\<open>log.Fatalf\<close> in
  \<^verbatim>\<open>builder/exec.go\<close>); the executor itself is not part of the dispatcher.
\<close>

record config =
  Functions :: "(string \<times> Function) list"
  queueDepth :: int
  shrinkwrap :: bool
  nocache :: bool
  squash :: bool
  buildArgMap :: "string \<rightharpoonup> string"
  fatal :: "event \<Rightarrow> bool"

text \<open>
  Control points of the goroutine that runs \<^verbatim>\<open>build\<close>:
  \<^item> \<open>MSpawn i\<close>: at the head of \<^verbatim>\<open>for i := 0; i < queueDepth; i++\<close>;
  \<^item> \<open>MRange n\<close>: at the head of the \<^verbatim>\<open>range\<close> loop, about to visit entry \<open>n\<close>;
  \<^item> \<open>MSend n\<close>: blocked in \<^verbatim>\<open>workChannel <- function\<close> with entry \<open>n\<close>;
  \<^item> \<open>MClose\<close>, \<open>MWait\<close>: the deferred \<^verbatim>\<open>close(workChannel)\<close> and
    \<^verbatim>\<open>wg.Wait()\<close>, which run in this order (last deferred, first run);
  \<^item> \<open>MReturned\<close>: \<^verbatim>\<open>build\<close> has returned to \<^verbatim>\<open>runBuild\<close>.
\<close>

datatype main_pc = MSpawn int | MRange nat | MSend nat | MClose | MWait | MReturned

text \<open>
  Control points of one worker goroutine: before \<^verbatim>\<open>wg.Add(1)\<close>, at the receive of
  \<^verbatim>\<open>range workChannel\<close>, before each of the three steps of the loop body, before the
  \<^verbatim>\<open>worker done\<close> line, before \<^verbatim>\<open>wg.Done()\<close>, and finished.
\<close>

datatype worker_pc =
    WAdd
  | WRecv
  | WStart Function
  | WBuild Function
  | WDone Function
  | WExit
  | WFinish
  | WGone

datatype pstatus = Running | Exited | Panicked

record state =
  status :: pstatus
  mpc :: main_pc
  workers :: "(int \<times> worker_pc) list"
  wg :: int
  closed :: bool
  trace :: "event list"

datatype actor = Main | Worker nat

section \<open>The dispatcher as a transition system\<close>

definition init :: state where
  "init = \<lparr>status = Running, mpc = MSpawn 0, workers = [], wg = 0, closed = False, trace = []\<rparr>"

text \<open>The descriptor the producer sends for entry \<open>(k, f)\<close>: \<^verbatim>\<open>function.Name = k\<close>.\<close>

definition descriptor :: "string \<times> Function \<Rightarrow> Function" where
  "descriptor e = (snd e)\<lparr>Name := fst e\<rparr>"

text \<open>
  One step of the goroutine of \<^verbatim>\<open>build\<close>. \<open>None\<close> means that it cannot move by
  itself: it is blocked in the send (the hand-off is the receiver's step), blocked in
  \<^verbatim>\<open>wg.Wait()\<close> on a counter that is not zero, or it has returned.
\<close>

definition main_step :: "config \<Rightarrow> state \<Rightarrow> state option" where
  "main_step cfg s =
     (case mpc s of
        MSpawn i \<Rightarrow>
          if i < queueDepth cfg
          then Some (s\<lparr>workers := workers s @ [(i, WAdd)], mpc := MSpawn (i + 1)\<rparr>)
          else Some (s\<lparr>mpc := MRange 0\<rparr>)
      | MRange n \<Rightarrow>
          if n < length (Functions cfg)
          then (if SkipBuild (snd (Functions cfg ! n))
                then Some (s\<lparr>trace := trace s @ [Skipping (Name (snd (Functions cfg ! n)))],
                             mpc := MRange (Suc n)\<rparr>)
                else Some (s\<lparr>mpc := MSend n\<rparr>))
          else Some (s\<lparr>mpc := MClose\<rparr>)
      | MSend n \<Rightarrow> None
      | MClose \<Rightarrow> Some (s\<lparr>closed := True, mpc := MWait\<rparr>)
      | MWait \<Rightarrow> if wg s = 0 then Some (s\<lparr>mpc := MReturned\<rparr>) else None
      | MReturned \<Rightarrow> None)"

text \<open>The call of the Build Executor that a worker makes for a descriptor.\<close>

definition call :: "config \<Rightarrow> Function \<Rightarrow> event" where
  "call cfg f =
     BuildImage (Image f) (Handler f) (Name f) (Language f)
       (nocache cfg) (squash cfg) (shrinkwrap cfg) (buildArgMap cfg)"

text \<open>
  One step of the goroutine whose \<^verbatim>\<open>index\<close> argument is \<open>i\<close>, standing at \<open>pc\<close>.
  The result is the worker's next control point and the new state of everything
  else. The receive takes the descriptor of a producer blocked in the send (the channel
  is unbuffered, so send and receive are one step) and leaves the loop on a closed
  channel. \<^verbatim>\<open>wg.Done()\<close> on a counter of zero panics, as \<^verbatim>\<open>sync.WaitGroup\<close> does.
\<close>

definition worker_pc_step ::
  "config \<Rightarrow> int \<Rightarrow> worker_pc \<Rightarrow> state \<Rightarrow> (worker_pc \<times> state) option" where
  "worker_pc_step cfg i pc s =
     (case pc of
        WAdd \<Rightarrow> Some (WRecv, s\<lparr>wg := wg s + 1\<rparr>)
      | WRecv \<Rightarrow>
          (case mpc s of
             MSend n \<Rightarrow> Some (WStart (descriptor (Functions cfg ! n)), s\<lparr>mpc := MRange (Suc n)\<rparr>)
           | _ \<Rightarrow> if closed s then Some (WExit, s) else None)
      | WStart f \<Rightarrow> Some (WBuild f, s\<lparr>trace := trace s @ [Building i (Name f)]\<rparr>)
      | WBuild f \<Rightarrow>
          if length (Language f) = 0
          then Some (WDone f, s\<lparr>trace := trace s @ [NoLanguage]\<rparr>)
          else Some (WDone f,
                 s\<lparr>trace := trace s @ [call cfg f],
                   status := (if fatal cfg (call cfg f) then Exited else status s)\<rparr>)
      | WDone f \<Rightarrow> Some (WRecv, s\<lparr>trace := trace s @ [BuildingDone i (Name f)]\<rparr>)
      | WExit \<Rightarrow> Some (WFinish, s\<lparr>trace := trace s @ [WorkerDone i]\<rparr>)
      | WFinish \<Rightarrow>
          if wg s - 1 < 0 then Some (WFinish, s\<lparr>status := Panicked\<rparr>)
          else Some (WGone, s\<lparr>wg := wg s - 1\<rparr>)
      | WGone \<Rightarrow> None)"

definition worker_step :: "config \<Rightarrow> nat \<Rightarrow> state \<Rightarrow> state option" where
  "worker_step cfg j s =
     (if j < length (workers s)
      then (case worker_pc_step cfg (fst (workers s ! j)) (snd (workers s ! j)) s of
              None \<Rightarrow> None
            | Some (pc', s') \<Rightarrow> Some (s'\<lparr>workers := (workers s)[j := (fst (workers s ! j), pc')]\<rparr>))
      else None)"

text \<open>Nothing moves once the process has ended.\<close>

definition step :: "config \<Rightarrow> actor \<Rightarrow> state \<Rightarrow> state option" where
  "step cfg a s =
     (if status s \<noteq> Running then None
      else (case a of Main \<Rightarrow> main_step cfg s | Worker j \<Rightarrow> worker_step cfg j s))"

text \<open>
  A schedule names the goroutine that the Go scheduler runs next: \<open>Main\<close>, or the
  \<open>j\<close>-th goroutine started by the \<^verbatim>\<open>go\<close> statement. A goroutine that cannot move
  leaves the state as it is.
\<close>

definition sched_step :: "config \<Rightarrow> state \<Rightarrow> actor \<Rightarrow> state" where
  "sched_step cfg s a = (case step cfg a s of None \<Rightarrow> s | Some s' \<Rightarrow> s')"

definition exec :: "config \<Rightarrow> state \<Rightarrow> actor list \<Rightarrow> state" where
  "exec cfg s sched = foldl (sched_step cfg) s sched"

definition build :: "config \<Rightarrow> actor list \<Rightarrow> state" where
  "build cfg sched = exec cfg init sched"

section \<open>What a state of the dispatch says\<close>

text \<open>
  The number of entries of the FunctionSet that the producer has dealt with: skipped
  with a notice, or handed to a worker. The entry of a blocked send is not counted.
\<close>

definition pos :: "config \<Rightarrow> state \<Rightarrow> nat" where
  "pos cfg s =
     (case mpc s of MSpawn i \<Rightarrow> 0 | MRange n \<Rightarrow> n | MSend n \<Rightarrow> n | _ \<Rightarrow> length (Functions cfg))"

text \<open>The descriptors that have gone through the channel so far, in order.\<close>

definition enqueued :: "config \<Rightarrow> state \<Rightarrow> Function list" where
  "enqueued cfg s =
     map descriptor (filter (\<lambda>e. \<not> SkipBuild (snd e)) (take (pos cfg s) (Functions cfg)))"

text \<open>
  The names in the output, by kind of line: of the \<^verbatim>\<open>BuildImage\<close> calls (the
  invocation log of the Build Executor), of the start markers, of the done markers and
  of the skipping notices.
\<close>

fun built_name :: "event \<Rightarrow> string list" where
  "built_name (BuildImage img h n l nc sq sw args) = [n]"
| "built_name _ = []"

fun started_name :: "event \<Rightarrow> string list" where
  "started_name (Building i n) = [n]"
| "started_name _ = []"

fun finished_name :: "event \<Rightarrow> string list" where
  "finished_name (BuildingDone i n) = [n]"
| "finished_name _ = []"

fun skipped_name :: "event \<Rightarrow> string list" where
  "skipped_name (Skipping n) = [n]"
| "skipped_name _ = []"

definition built :: "event list \<Rightarrow> string list" where
  "built tr = concat (map built_name tr)"

definition started :: "event list \<Rightarrow> string list" where
  "started tr = concat (map started_name tr)"

definition finished :: "event list \<Rightarrow> string list" where
  "finished tr = concat (map finished_name tr)"

definition skipped :: "event list \<Rightarrow> string list" where
  "skipped tr = concat (map skipped_name tr)"

text \<open>
  Sums over the workers. \<open>active\<close> counts a worker between its \<^verbatim>\<open>wg.Add(1)\<close> and
  its \<^verbatim>\<open>wg.Done()\<close>; \<open>receiving\<close>, \<open>unbuilt\<close> and \<open>unfinished\<close> give the name of the
  descriptor that a worker holds while its start marker, its \<^verbatim>\<open>BuildImage\<close> call
  (if the descriptor has a language) and its done marker are still to come.
\<close>

definition held :: "(worker_pc \<Rightarrow> 'a::comm_monoid_add) \<Rightarrow> state \<Rightarrow> 'a" where
  "held g s = sum_list (map (\<lambda>w. g (snd w)) (workers s))"

definition active :: "worker_pc \<Rightarrow> nat" where
  "active pc = (case pc of WAdd \<Rightarrow> 0 | WGone \<Rightarrow> 0 | _ \<Rightarrow> 1)"

definition receiving :: "worker_pc \<Rightarrow> string multiset" where
  "receiving pc = (case pc of WStart f \<Rightarrow> {#Name f#} | _ \<Rightarrow> {#})"

definition unbuilt :: "worker_pc \<Rightarrow> string multiset" where
  "unbuilt pc =
     (case pc of
        WStart f \<Rightarrow> if Language f = [] then {#} else {#Name f#}
      | WBuild f \<Rightarrow> if Language f = [] then {#} else {#Name f#}
      | _ \<Rightarrow> {#})"

definition unfinished :: "worker_pc \<Rightarrow> string multiset" where
  "unfinished pc =
     (case pc of WStart f \<Rightarrow> {#Name f#} | WBuild f \<Rightarrow> {#Name f#} | WDone f \<Rightarrow> {#Name f#}
      | _ \<Rightarrow> {#})"

section \<open>Invariants of the dispatch\<close>

text \<open>The counter of the wait group is the number of active workers.\<close>

definition wg_inv :: "state \<Rightarrow> bool" where
  "wg_inv s = (wg s = int (held active s))"

text \<open>The producer only blocks in a send with an entry that exists and is not skipped.\<close>

definition send_inv :: "config \<Rightarrow> state \<Rightarrow> bool" where
  "send_inv cfg s =
     ((\<forall>n. mpc s = MSend n \<longrightarrow> n < length (Functions cfg) \<and> \<not> SkipBuild (snd (Functions cfg ! n)))
      \<and> (\<forall>n. mpc s = MRange n \<longrightarrow> n \<le> length (Functions cfg)))"

text \<open>The channel is closed exactly when the producer is in or behind \<^verbatim>\<open>wg.Wait()\<close>.\<close>

definition closed_inv :: "state \<Rightarrow> bool" where
  "closed_inv s = (closed s = (mpc s = MWait \<or> mpc s = MReturned))"

text \<open>After the return no worker holds a descriptor.\<close>

definition returned_inv :: "state \<Rightarrow> bool" where
  "returned_inv s = (mpc s = MReturned \<longrightarrow> held unfinished s = {#})"

text \<open>
  Accounting: every descriptor that went through the channel has its start marker
  (its call, its done marker) in the output or is held by a worker that has still to
  write it, and nothing else is in the output.
\<close>

definition started_inv :: "config \<Rightarrow> state \<Rightarrow> bool" where
  "started_inv cfg s =
     (mset (started (trace s)) + held receiving s = mset (map Name (enqueued cfg s)))"

definition built_inv :: "config \<Rightarrow> state \<Rightarrow> bool" where
  "built_inv cfg s =
     (mset (built (trace s)) + held unbuilt s =
      mset (map Name (filter (\<lambda>f. Language f \<noteq> []) (enqueued cfg s))))"

definition finished_inv :: "config \<Rightarrow> state \<Rightarrow> bool" where
  "finished_inv cfg s =
     (mset (finished (trace s)) + held unfinished s = mset (map Name (enqueued cfg s)))"

text \<open>The notices are those of the skipped entries passed so far, with the record's name.\<close>

definition skipped_inv :: "config \<Rightarrow> state \<Rightarrow> bool" where
  "skipped_inv cfg s =
     (skipped (trace s) =
      map (\<lambda>e. Name (snd e)) (filter (\<lambda>e. SkipBuild (snd e)) (take (pos cfg s) (Functions cfg))))"

text \<open>
  While the workers are being started, \<open>i\<close> of them exist with the indices
  \<open>0, ..., i - 1\<close> and nothing has been written; afterwards there are
  \<open>queueDepth\<close> of them (none when \<open>queueDepth\<close> is not positive).
\<close>

definition spawn_inv :: "config \<Rightarrow> state \<Rightarrow> bool" where
  "spawn_inv cfg s =
     (case mpc s of
        MSpawn i \<Rightarrow>
          0 \<le> i \<and> (i \<le> queueDepth cfg \<or> i = 0) \<and> map fst (workers s) = map int [0..<nat i]
          \<and> trace s = [] \<and> \<not> closed s
          \<and> (\<forall>w \<in> set (workers s). snd w = WAdd \<or> snd w = WRecv)
      | _ \<Rightarrow> map fst (workers s) = map int [0..<nat (queueDepth cfg)])"

text \<open>The descriptor that a worker holds between the receive and the done marker.\<close>

definition holds :: "worker_pc \<Rightarrow> Function list" where
  "holds pc = (case pc of WStart f \<Rightarrow> [f] | WBuild f \<Rightarrow> [f] | WDone f \<Rightarrow> [f] | _ \<Rightarrow> [])"

text \<open>
  A worker holds only descriptors that went through the channel, and every
  \<^verbatim>\<open>BuildImage\<close> call in the output is the call for such a descriptor.
\<close>

definition origin_inv :: "config \<Rightarrow> state \<Rightarrow> bool" where
  "origin_inv cfg s =
     ((\<forall>w \<in> set (workers s). set (holds (snd w)) \<subseteq> set (enqueued cfg s))
      \<and> (\<forall>e \<in> set (trace s). built_name e = [] \<or>
            (\<exists>f \<in> set (enqueued cfg s). e = call cfg f \<and> Language f \<noteq> [])))"

definition dispatch_inv :: "config \<Rightarrow> state \<Rightarrow> bool" where
  "dispatch_inv cfg s =
     (wg_inv s \<and> send_inv cfg s \<and> closed_inv s \<and> returned_inv s \<and> started_inv cfg s
      \<and> built_inv cfg s \<and> finished_inv cfg s \<and> skipped_inv cfg s \<and> spawn_inv cfg s
      \<and> origin_inv cfg s)"

text \<open>The producer is still in the loop that starts the workers.\<close>

definition spawning :: "state \<Rightarrow> bool" where
  "spawning s = (case mpc s of MSpawn i \<Rightarrow> True | _ \<Rightarrow> False)"

section \<open>The producer without workers\<close>

text \<open>
  The index of the first entry that the producer sends: the number of skipped entries
  at the front of the FunctionSet.
\<close>

definition first_send :: "config \<Rightarrow> nat" where
  "first_send cfg = length (takeWhile (\<lambda>e. SkipBuild (snd e)) (Functions cfg))"

text \<open>How far the producer has come on its way to the first send.\<close>

definition progress :: "config \<Rightarrow> state \<Rightarrow> nat" where
  "progress cfg s =
     (case mpc s of MSpawn i \<Rightarrow> 0 | MRange n \<Rightarrow> Suc n | _ \<Rightarrow> first_send cfg + 2)"

text \<open>Without workers the producer gets as far as the first send and no further.\<close>

definition blocked_inv :: "config \<Rightarrow> state \<Rightarrow> bool" where
  "blocked_inv cfg s =
     (status s = Running \<and> workers s = []
      \<and> (mpc s = MSpawn 0 \<or> (\<exists>n \<le> first_send cfg. mpc s = MRange n)
           \<or> mpc s = MSend (first_send cfg)))"

section \<open>A single worker and the sequential loop\<close>

text \<open>What a worker with index \<open>i\<close> writes for one descriptor, from start marker to done marker.\<close>

definition block :: "config \<Rightarrow> int \<Rightarrow> Function \<Rightarrow> event list" where
  "block cfg i f =
     [Building i (Name f), (if Language f = [] then NoLanguage else call cfg f),
      BuildingDone i (Name f)]"

text \<open>
  Modelled on the words of the specification, not on the code: the plain sequential
  loop that a dispatch with one worker is compared with. It visits the entries in
  order; a skipped entry gets its notice, any other entry is built from start marker to
  done marker before the next entry is looked at.
\<close>

fun sequential_build :: "config \<Rightarrow> (string \<times> Function) list \<Rightarrow> event list" where
  "sequential_build cfg [] = []"
| "sequential_build cfg (e # es) =
     (if SkipBuild (snd e) then [Skipping (Name (snd e))] else block cfg 0 (descriptor e))
     @ sequential_build cfg es"

text \<open>The part of the output that belongs to builds: markers, calls and the language warning.\<close>

fun is_build_event :: "event \<Rightarrow> bool" where
  "is_build_event (Skipping n) = False"
| "is_build_event (WorkerDone i) = False"
| "is_build_event e = True"

definition build_events :: "event list \<Rightarrow> event list" where
  "build_events tr = filter is_build_event tr"

text \<open>What a worker still has to write for the descriptor it holds.\<close>

definition pending :: "config \<Rightarrow> int \<times> worker_pc \<Rightarrow> event list" where
  "pending cfg w =
     (case snd w of
        WStart f \<Rightarrow> block cfg (fst w) f
      | WBuild f \<Rightarrow> tl (block cfg (fst w) f)
      | WDone f \<Rightarrow> [BuildingDone (fst w) (Name f)]
      | _ \<Rightarrow> [])"

definition seq_inv :: "config \<Rightarrow> state \<Rightarrow> bool" where
  "seq_inv cfg s =
     (spawn_inv cfg s \<and> send_inv cfg s
      \<and> build_events (trace s) @ concat (map (pending cfg) (workers s)) =
          concat (map (block cfg 0) (enqueued cfg s)))"

section \<open>Measures for termination\<close>

text \<open>
  An upper bound on the steps that the goroutine of \<^verbatim>\<open>build\<close> and a worker still take,
  weighted so that every step of the dispatch lowers their sum: starting a worker costs
  the producer more than the new worker brings in, and so does a hand-off.
\<close>

definition main_rem :: "config \<Rightarrow> main_pc \<Rightarrow> nat" where
  "main_rem cfg pc =
     (case pc of
        MSpawn i \<Rightarrow> 4 + 6 * length (Functions cfg) + 5 * nat (queueDepth cfg - i)
      | MRange n \<Rightarrow> 3 + 6 * (length (Functions cfg) - n)
      | MSend n \<Rightarrow> 2 + 6 * (length (Functions cfg) - n)
      | MClose \<Rightarrow> 2
      | MWait \<Rightarrow> 1
      | MReturned \<Rightarrow> 0)"

definition worker_rem :: "worker_pc \<Rightarrow> nat" where
  "worker_rem pc =
     (case pc of
        WAdd \<Rightarrow> 4 | WRecv \<Rightarrow> 3 | WStart f \<Rightarrow> 6 | WBuild f \<Rightarrow> 5 | WDone f \<Rightarrow> 4
      | WExit \<Rightarrow> 2 | WFinish \<Rightarrow> 1 | WGone \<Rightarrow> 0)"

definition potential :: "config \<Rightarrow> state \<Rightarrow> nat" where
  "potential cfg s = main_rem cfg (mpc s) + held worker_rem s"

text \<open>No worker leaves its loop while the channel is open.\<close>

definition open_inv :: "state \<Rightarrow> bool" where
  "open_inv s =
     (\<not> closed s \<longrightarrow> (\<forall>w \<in> set (workers s). snd w \<noteq> WExit \<and> snd w \<noteq> WFinish \<and> snd w \<noteq> WGone))"

definition live :: "config \<Rightarrow> state \<Rightarrow> bool" where
  "live cfg s = (dispatch_inv cfg s \<and> status s = Running \<and> open_inv s)"

section \<open>Parsing the build arguments\<close>

text \<open>
  What a Go function that returns \<^verbatim>\<open>(value, error)\<close> can do: return a value with a nil
  error, return an error, or panic with \<^verbatim>\<open>index out of range [i] with length n\<close>.
\<close>

datatype 'a outcome = Returns 'a | Fails string | Panics nat nat

text \<open>Indexing a slice: \<^verbatim>\<open>s[i]\<close> panics when \<open>i\<close> is not below the length.\<close>

definition index :: "'a list \<Rightarrow> nat \<Rightarrow> 'a outcome" where
  "index xs i = (if i < length xs then Returns (xs ! i) else Panics i (length xs))"

text \<open>
  \<^verbatim>\<open>strings.SplitN(s, "=", 2)\<close>: the text before the first \<^verbatim>\<open>=\<close> and the text after
  it, or \<open>s\<close> alone when it holds no \<^verbatim>\<open>=\<close> (also when \<open>s\<close> is empty).
\<close>

definition key_part :: "string \<Rightarrow> string" where
  "key_part s = takeWhile (\<lambda>c. c \<noteq> CHR ''='') s"

definition value_part :: "string \<Rightarrow> string" where
  "value_part s = tl (dropWhile (\<lambda>c. c \<noteq> CHR ''='') s)"

definition SplitN2 :: "string \<Rightarrow> string list" where
  "SplitN2 s = (if CHR ''='' \<in> set s then [key_part s, value_part s] else [s])"

text \<open>
  \<^verbatim>\<open>strings.TrimSpace\<close> on ASCII text (tab, line feed, vertical tab, form feed, carriage
  return and space). \<^verbatim>\<open>parseMap\<close> below takes the trimming function as an argument,
  so its theorems hold for the library's function on any text; this one serves for
  concrete runs.
\<close>

definition is_space :: "char \<Rightarrow> bool" where
  "is_space c = (c \<in> set [CHR 0x09, CHR 0x0A, CHR 0x0B, CHR 0x0C, CHR 0x0D, CHR 0x20])"

definition TrimSpace :: "string \<Rightarrow> string" where
  "TrimSpace s = rev (dropWhile is_space (rev (dropWhile is_space s)))"

text \<open>
  The loop of \<^verbatim>\<open>parseMap(envvars, keyName)\<close> in \<^verbatim>\<open>commands/deploy.go\<close>, with the map
  built so far. Both \<^verbatim>\<open>s[0]\<close> and \<^verbatim>\<open>s[1]\<close> are read before either is checked.
\<close>

fun parseMap_loop ::
  "(string \<Rightarrow> string) \<Rightarrow> string \<Rightarrow> string list \<Rightarrow> (string \<rightharpoonup> string)
   \<Rightarrow> (string \<rightharpoonup> string) outcome" where
  "parseMap_loop trim keyName [] result = Returns result"
| "parseMap_loop trim keyName (envvar # rest) result =
     (let s = SplitN2 (trim envvar) in
      case index s 0 of
        Panics i n \<Rightarrow> Panics i n
      | Fails e \<Rightarrow> Fails e
      | Returns envvarName \<Rightarrow>
          (case index s 1 of
             Panics i n \<Rightarrow> Panics i n
           | Fails e \<Rightarrow> Fails e
           | Returns envvarValue \<Rightarrow>
               if \<not> (length envvarName > 0)
               then Fails (''Empty '' @ keyName @ '' name: ['' @ envvar @ '']'')
               else if \<not> (length envvarValue > 0)
               then Fails (''Empty '' @ keyName @ '' value: ['' @ envvar @ '']'')
               else parseMap_loop trim keyName rest (result(envvarName \<mapsto> envvarValue))))"

definition parseMap ::
  "(string \<Rightarrow> string) \<Rightarrow> string list \<Rightarrow> string \<Rightarrow> (string \<rightharpoonup> string) outcome" where
  "parseMap trim envvars keyName = parseMap_loop trim keyName envvars Map.empty"

text \<open>
  \<^verbatim>\<open>preRunBuild\<close>: the value returned is the new \<^verbatim>\<open>buildArgMap\<close>. The assignment to
  \<^verbatim>\<open>language\<close> before it drops the error of \<^verbatim>\<open>validateLanguageFlag\<close> and cannot
  fail. Nothing recovers from a panic of \<^verbatim>\<open>parseMap\<close>.
\<close>

definition preRunBuild :: "(string \<Rightarrow> string) \<Rightarrow> string list \<Rightarrow> (string \<rightharpoonup> string) outcome" where
  "preRunBuild trim buildArgs =
     (case parseMap trim buildArgs ''build-arg'' of
        Returns mapped \<Rightarrow> Returns mapped
      | Fails err \<Rightarrow> Fails (''failed to parse build-arg: '' @ err)
      | Panics i n \<Rightarrow> Panics i n)"

text \<open>An entry that the loop accepts: it has a \<^verbatim>\<open>=\<close>, a key before it and a value after it.\<close>

definition well_formed :: "(string \<Rightarrow> string) \<Rightarrow> string \<Rightarrow> bool" where
  "well_formed trim envvar =
     (CHR ''='' \<in> set (trim envvar) \<and> key_part (trim envvar) \<noteq> []
      \<and> value_part (trim envvar) \<noteq> [])"

section \<open>The build command\<close>

text \<open>
  The flags that \<^verbatim>\<open>runBuild\<close> reads besides the build options: \<^verbatim>\<open>yamlFile\<close>,
  \<^verbatim>\<open>image\<close>, \<^verbatim>\<open>handler\<close>, \<^verbatim>\<open>functionName\<close>, \<^verbatim>\<open>language\<close> and \<^verbatim>\<open>parallel\<close>.
\<close>

record flags =
  yamlFile :: string
  image_flag :: string
  handler_flag :: string
  functionName :: string
  language_flag :: string
  parallel :: int

text \<open>
  What \<^verbatim>\<open>runBuild\<close> does: it returns an error, or it calls \<^verbatim>\<open>build\<close> and returns
  nil, or it calls \<^verbatim>\<open>builder.BuildImage\<close> once and returns nil.
\<close>

datatype run = ReturnsError string | CallsBuild config | CallsBuildImage event

text \<open>
  The functions that \<^verbatim>\<open>runBuild\<close> holds after the first block. \<open>parsed\<close> is what
  \<^verbatim>\<open>stack.ParseYAMLFile(yamlFile, regex, filter)\<close> returns (an error, or a pointer that
  may be nil); the parser is not part of this command and is called only when
  \<^verbatim>\<open>yamlFile\<close> is not empty.
\<close>

definition parsedServices ::
  "flags \<Rightarrow> string + (string \<times> Function) list option \<Rightarrow> string + (string \<times> Function) list" where
  "parsedServices fl parsed =
     (if length (yamlFile fl) > 0
      then (case parsed of Inl err \<Rightarrow> Inl err | Inr None \<Rightarrow> Inr [] | Inr (Some fs) \<Rightarrow> Inr fs)
      else Inr [])"

text \<open>
  \<^verbatim>\<open>runBuild\<close>. \<open>g\<close> holds the build options (\<^verbatim>\<open>nocache\<close>, \<^verbatim>\<open>squash\<close>,
  \<^verbatim>\<open>shrinkwrap\<close>, \<^verbatim>\<open>buildArgMap\<close>), \<open>pullErr\<close> is what \<^verbatim>\<open>PullTemplates\<close> returns.
\<close>

definition runBuild ::
  "flags \<Rightarrow> config \<Rightarrow> string + (string \<times> Function) list option \<Rightarrow> string option \<Rightarrow> run" where
  "runBuild fl g parsed pullErr =
     (case parsedServices fl parsed of
        Inl err \<Rightarrow> ReturnsError err
      | Inr services \<Rightarrow>
          (case pullErr of
             Some e \<Rightarrow> ReturnsError (''could not pull templates for OpenFaaS: '' @ e)
           | None \<Rightarrow>
               if length services > 0
               then CallsBuild (g\<lparr>Functions := services, queueDepth := parallel fl\<rparr>)
               else if length (image_flag fl) = 0
               then ReturnsError ''please provide a valid --image name for your Docker image''
               else if length (handler_flag fl) = 0
               then ReturnsError
                 (''please provide the full path to your function'' @ [CHR 0x27] @ ''s handler'')
               else if length (functionName fl) = 0
               then ReturnsError ''please provide the deployed --name of your function''
               else CallsBuildImage
                 (BuildImage (image_flag fl) (handler_flag fl) (functionName fl) (language_flag fl)
                    (nocache g) (squash g) (shrinkwrap g) (buildArgMap g))))"

text \<open>Flags of a single-function build that names image, handler and function but no language.\<close>

definition no_language_flags :: flags where
  "no_language_flags =
     \<lparr>yamlFile = [], image_flag = ''img/fn'', handler_flag = ''./fn'', functionName = ''fn'',
      language_flag = [], parallel = 1\<rparr>"

section \<open>A concrete dispatch\<close>

text \<open>
  The scenario of the specification: \<open>a\<close> is built, \<open>b\<close> has \<^verbatim>\<open>skip_build\<close> set,
  \<open>c\<close> has no language. The \<^verbatim>\<open>Name\<close> fields are empty, as they are when the
  manifest gives a function no name of its own.
\<close>

definition fn_a :: Function where
  "fn_a = \<lparr>Name = [], Language = ''node'', Handler = ''./a'', Image = ''img/a'', SkipBuild = False\<rparr>"

definition fn_b :: Function where
  "fn_b = \<lparr>Name = [], Language = ''node'', Handler = ''./b'', Image = ''img/b'', SkipBuild = True\<rparr>"

definition fn_c :: Function where
  "fn_c = \<lparr>Name = [], Language = [], Handler = ''./c'', Image = ''img/c'', SkipBuild = False\<rparr>"

definition scenario :: "int \<Rightarrow> config" where
  "scenario q =
     \<lparr>Functions = [(''a'', fn_a), (''b'', fn_b), (''c'', fn_c)], queueDepth = q,
      shrinkwrap = False, nocache = False, squash = False, buildArgMap = Map.empty,
      fatal = (\<lambda>e. False)\<rparr>"

text \<open>
  A schedule of \<open>scenario 2\<close> in which the first worker takes both descriptors and the
  second worker never runs before \<^verbatim>\<open>build\<close> returns.
\<close>

definition sched_one_worker :: "actor list" where
  "sched_one_worker =
     [Main, Main, Main, Main, Worker 0, Worker 0, Main, Main, Worker 0, Worker 0, Worker 0,
      Worker 0, Main, Main, Worker 0, Worker 0, Worker 0, Worker 0, Worker 0, Worker 0, Main]"

text \<open>A schedule of \<open>scenario 2\<close> in which each worker takes one descriptor.\<close>

definition sched_two_workers :: "actor list" where
  "sched_two_workers =
     [Main, Main, Main, Main, Worker 0, Worker 1, Worker 0, Main, Main, Main, Worker 1,
      Worker 0, Worker 1, Worker 0, Worker 1, Worker 0, Main, Main, Worker 1, Worker 0,
      Worker 1, Worker 0, Worker 1, Worker 0, Worker 1, Main]"

text \<open>A schedule of \<open>scenario 1\<close> that lets \<^verbatim>\<open>build\<close> return.\<close>

definition sched_single :: "actor list" where
  "sched_single =
     [Main, Main, Main, Worker 0, Worker 0, Main, Main, Worker 0, Worker 0, Worker 0,
      Worker 0, Main, Main, Worker 0, Worker 0, Worker 0, Worker 0, Worker 0, Worker 0, Main]"

section \<open>Steps, case by case\<close>

lemma main_step_cases [consumes 1, case_names Spawn SpawnEnd Skip ToSend RangeEnd Close Wait]:
  assumes "main_step cfg s = Some s'"
  obtains
    (Spawn) i where "mpc s = MSpawn i" "i < queueDepth cfg"
      "s' = s\<lparr>workers := workers s @ [(i, WAdd)], mpc := MSpawn (i + 1)\<rparr>"
  | (SpawnEnd) i where "mpc s = MSpawn i" "\<not> i < queueDepth cfg" "s' = s\<lparr>mpc := MRange 0\<rparr>"
  | (Skip) n where "mpc s = MRange n" "n < length (Functions cfg)"
      "SkipBuild (snd (Functions cfg ! n))"
      "s' = s\<lparr>trace := trace s @ [Skipping (Name (snd (Functions cfg ! n)))], mpc := MRange (Suc n)\<rparr>"
  | (ToSend) n where "mpc s = MRange n" "n < length (Functions cfg)"
      "\<not> SkipBuild (snd (Functions cfg ! n))" "s' = s\<lparr>mpc := MSend n\<rparr>"
  | (RangeEnd) n where "mpc s = MRange n" "\<not> n < length (Functions cfg)" "s' = s\<lparr>mpc := MClose\<rparr>"
  | (Close) "mpc s = MClose" "s' = s\<lparr>closed := True, mpc := MWait\<rparr>"
  | (Wait) "mpc s = MWait" "wg s = 0" "s' = s\<lparr>mpc := MReturned\<rparr>"
  using assms unfolding main_step_def
  by (cases "mpc s") (auto split: if_splits)

lemma worker_step_cases [consumes 1, case_names Add Recv RecvClosed Start NoLang Invoke Done Exit Panic Finish]:
  assumes "worker_step cfg j s = Some s'"
  obtains
    (Add) i where "j < length (workers s)" "workers s ! j = (i, WAdd)"
      "s' = s\<lparr>wg := wg s + 1, workers := (workers s)[j := (i, WRecv)]\<rparr>"
  | (Recv) i n where "j < length (workers s)" "workers s ! j = (i, WRecv)" "mpc s = MSend n"
      "s' = s\<lparr>mpc := MRange (Suc n),
               workers := (workers s)[j := (i, WStart (descriptor (Functions cfg ! n)))]\<rparr>"
  | (RecvClosed) i where "j < length (workers s)" "workers s ! j = (i, WRecv)"
      "\<forall>n. mpc s \<noteq> MSend n" "closed s" "s' = s\<lparr>workers := (workers s)[j := (i, WExit)]\<rparr>"
  | (Start) i f where "j < length (workers s)" "workers s ! j = (i, WStart f)"
      "s' = s\<lparr>trace := trace s @ [Building i (Name f)], workers := (workers s)[j := (i, WBuild f)]\<rparr>"
  | (NoLang) i f where "j < length (workers s)" "workers s ! j = (i, WBuild f)" "Language f = []"
      "s' = s\<lparr>trace := trace s @ [NoLanguage], workers := (workers s)[j := (i, WDone f)]\<rparr>"
  | (Invoke) i f where "j < length (workers s)" "workers s ! j = (i, WBuild f)" "Language f \<noteq> []"
      "s' = s\<lparr>trace := trace s @ [call cfg f],
               status := (if fatal cfg (call cfg f) then Exited else status s),
               workers := (workers s)[j := (i, WDone f)]\<rparr>"
  | (Done) i f where "j < length (workers s)" "workers s ! j = (i, WDone f)"
      "s' = s\<lparr>trace := trace s @ [BuildingDone i (Name f)], workers := (workers s)[j := (i, WRecv)]\<rparr>"
  | (Exit) i where "j < length (workers s)" "workers s ! j = (i, WExit)"
      "s' = s\<lparr>trace := trace s @ [WorkerDone i], workers := (workers s)[j := (i, WFinish)]\<rparr>"
  | (Panic) i where "j < length (workers s)" "workers s ! j = (i, WFinish)" "wg s - 1 < 0"
      "s' = s\<lparr>status := Panicked, workers := (workers s)[j := (i, WFinish)]\<rparr>"
  | (Finish) i where "j < length (workers s)" "workers s ! j = (i, WFinish)" "\<not> wg s - 1 < 0"
      "s' = s\<lparr>wg := wg s - 1, workers := (workers s)[j := (i, WGone)]\<rparr>"
proof -
  from assms have j: "j < length (workers s)"
    unfolding worker_step_def by (auto split: if_splits)
  obtain i pc where w: "workers s ! j = (i, pc)" by (cases "workers s ! j")
  from assms j w obtain pc' t where
    ws: "worker_pc_step cfg i pc s = Some (pc', t)" and
    s': "s' = t\<lparr>workers := (workers s)[j := (i, pc')]\<rparr>"
    unfolding worker_step_def by (auto split: option.splits)
  show thesis
  proof (cases pc)
    case WAdd
    with ws s' j w show thesis by (intro Add[of i]) (auto simp: worker_pc_step_def)
  next
    case WRecv
    show thesis
    proof (cases "\<exists>n. mpc s = MSend n")
      case True
      then obtain n where "mpc s = MSend n" ..
      with WRecv ws s' j w show thesis by (intro Recv[of i n]) (auto simp: worker_pc_step_def)
    next
      case False
      with WRecv ws s' j w show thesis
        by (intro RecvClosed[of i]) (auto simp: worker_pc_step_def split: main_pc.splits if_splits)
    qed
  next
    case (WStart f)
    with ws s' j w show thesis by (intro Start[of i f]) (auto simp: worker_pc_step_def)
  next
    case (WBuild f)
    with ws s' j w show thesis
      by (cases "Language f = []") (auto simp: worker_pc_step_def intro: NoLang[of i f] Invoke[of i f])
  next
    case (WDone f)
    with ws s' j w show thesis by (intro Done[of i f]) (auto simp: worker_pc_step_def)
  next
    case WExit
    with ws s' j w show thesis by (intro Exit[of i]) (auto simp: worker_pc_step_def)
  next
    case WFinish
    with ws s' j w show thesis
      by (cases "wg s - 1 < 0") (auto simp: worker_pc_step_def intro: Panic[of i] Finish[of i])
  next
    case WGone
    with ws show thesis by (simp add: worker_pc_step_def)
  qed
qed

section \<open>Invariants are kept by every step\<close>

lemma step_cases [consumes 1, case_names main worker]:
  assumes "step cfg a s = Some s'"
  obtains (main) "status s = Running" "a = Main" "main_step cfg s = Some s'"
  | (worker) j where "status s = Running" "a = Worker j" "worker_step cfg j s = Some s'"
  using assms unfolding step_def by (cases a) (auto split: if_splits)

lemma exec_invariant:
  assumes "P s" and "\<And>s a s'. P s \<Longrightarrow> step cfg a s = Some s' \<Longrightarrow> P s'"
  shows "P (exec cfg s sched)"
  using assms(1)
proof (induction sched arbitrary: s)
  case Nil
  then show ?case by (simp add: exec_def)
next
  case (Cons a sched)
  have "P (sched_step cfg s a)"
    using Cons.prems assms(2) by (auto simp: sched_step_def split: option.splits)
  then have "P (exec cfg (sched_step cfg s a) sched)" by (rule Cons.IH)
  then show ?case by (simp add: exec_def)
qed

lemma sum_list_map_update:
  fixes g :: "'a \<Rightarrow> 'b::comm_monoid_add"
  shows "j < length xs \<Longrightarrow> sum_list (map g (xs[j := y])) + g (xs ! j) = sum_list (map g xs) + g y"
proof (induction xs arbitrary: j)
  case Nil
  then show ?case by simp
next
  case (Cons x xs)
  show ?case
  proof (cases j)
    case 0
    then show ?thesis by (simp add: ac_simps)
  next
    case (Suc k)
    with Cons.prems have "k < length xs" by simp
    then have "sum_list (map g (xs[k := y])) + g (xs ! k) = sum_list (map g xs) + g y"
      by (rule Cons.IH)
    with Suc show ?thesis by (simp add: add.assoc)
  qed
qed

lemma held_update:
  assumes "j < length (workers s)" "workers s ! j = (i, pc)"
    "workers s' = (workers s)[j := (i, pc')]"
  shows "held g s' + g pc = held g s + g pc'"
  using sum_list_map_update[OF assms(1), of "\<lambda>w. g (snd w)" "(i, pc')"] assms(2,3)
  by (simp add: held_def)

lemma pcs_simps [simp]:
  "active WAdd = 0" "active WGone = 0" "active WRecv = 1" "active (WStart f) = 1"
  "active (WBuild f) = 1" "active (WDone f) = 1" "active WExit = 1" "active WFinish = 1"
  "receiving WAdd = {#}" "receiving WGone = {#}" "receiving WRecv = {#}"
  "receiving (WStart f) = {#Name f#}" "receiving (WBuild f) = {#}" "receiving (WDone f) = {#}"
  "receiving WExit = {#}" "receiving WFinish = {#}"
  "unfinished WAdd = {#}" "unfinished WGone = {#}" "unfinished WRecv = {#}"
  "unfinished (WStart f) = {#Name f#}" "unfinished (WBuild f) = {#Name f#}"
  "unfinished (WDone f) = {#Name f#}" "unfinished WExit = {#}" "unfinished WFinish = {#}"
  "unbuilt WAdd = {#}" "unbuilt WGone = {#}" "unbuilt WRecv = {#}"
  "unbuilt (WStart f) = (if Language f = [] then {#} else {#Name f#})"
  "unbuilt (WBuild f) = (if Language f = [] then {#} else {#Name f#})"
  "unbuilt (WDone f) = {#}" "unbuilt WExit = {#}" "unbuilt WFinish = {#}"
  by (simp_all add: active_def receiving_def unfinished_def unbuilt_def)

lemma proj_snoc [simp]:
  "built (tr @ [e]) = built tr @ built_name e"
  "started (tr @ [e]) = started tr @ started_name e"
  "finished (tr @ [e]) = finished tr @ finished_name e"
  "skipped (tr @ [e]) = skipped tr @ skipped_name e"
  by (simp_all add: built_def started_def finished_def skipped_def)

lemma proj_Nil [simp]: "built [] = []" "started [] = []" "finished [] = []" "skipped [] = []"
  by (simp_all add: built_def started_def finished_def skipped_def)

lemma built_name_call [simp]: "built_name (call cfg f) = [Name f]"
  "started_name (call cfg f) = []" "finished_name (call cfg f) = []" "skipped_name (call cfg f) = []"
  by (simp_all add: call_def)

lemma wg_inv_step:
  assumes "wg_inv s" "step cfg a s = Some s'"
  shows "wg_inv s'"
  using assms(2)
proof (cases rule: step_cases)
  case main
  from main(3) show ?thesis
    using assms(1) by (cases rule: main_step_cases) (auto simp: wg_inv_def held_def)
next
  case (worker j)
  from worker(3) show ?thesis
  proof (cases rule: worker_step_cases)
    case (Add i)
    from held_update[OF Add(1,2), of s' WRecv active] Add(3) assms(1)
    show ?thesis by (simp add: wg_inv_def)
  next
    case (Recv i n)
    from held_update[OF Recv(1,2), of s' "WStart (descriptor (Functions cfg ! n))" active] Recv assms(1)
    show ?thesis by (simp add: wg_inv_def)
  next
    case (RecvClosed i)
    from held_update[OF RecvClosed(1,2), of s' WExit active] RecvClosed assms(1)
    show ?thesis by (simp add: wg_inv_def)
  next
    case (Start i f)
    from held_update[OF Start(1,2), of s' "WBuild f" active] Start assms(1)
    show ?thesis by (simp add: wg_inv_def)
  next
    case (NoLang i f)
    from held_update[OF NoLang(1,2), of s' "WDone f" active] NoLang assms(1)
    show ?thesis by (simp add: wg_inv_def)
  next
    case (Invoke i f)
    from held_update[OF Invoke(1,2), of s' "WDone f" active] Invoke assms(1)
    show ?thesis by (simp add: wg_inv_def)
  next
    case (Done i f)
    from held_update[OF Done(1,2), of s' "WRecv" active] Done assms(1)
    show ?thesis by (simp add: wg_inv_def)
  next
    case (Exit i)
    from held_update[OF Exit(1,2), of s' "WFinish" active] Exit assms(1)
    show ?thesis by (simp add: wg_inv_def)
  next
    case (Panic i)
    from held_update[OF Panic(1,2), of s' "WFinish" active] Panic assms(1)
    show ?thesis by (simp add: wg_inv_def)
  next
    case (Finish i)
    from held_update[OF Finish(1,2), of s' "WGone" active] Finish assms(1)
    show ?thesis by (simp add: wg_inv_def)
  qed
qed

lemma descriptor_simps [simp]:
  "Name (descriptor e) = fst e" "Language (descriptor e) = Language (snd e)"
  "Handler (descriptor e) = Handler (snd e)" "Image (descriptor e) = Image (snd e)"
  "SkipBuild (descriptor e) = SkipBuild (snd e)"
  by (simp_all add: descriptor_def)

lemma send_inv_step:
  assumes "send_inv cfg s" "step cfg a s = Some s'"
  shows "send_inv cfg s'"
  using assms(2)
proof (cases rule: step_cases)
  case main
  from main(3) show ?thesis
    using assms(1) by (cases rule: main_step_cases) (auto simp: send_inv_def)
next
  case (worker j)
  from worker(3) show ?thesis
    using assms(1) by (cases rule: worker_step_cases) (auto simp: send_inv_def)
qed

lemma closed_inv_step:
  assumes "closed_inv s" "step cfg a s = Some s'"
  shows "closed_inv s'"
  using assms(2)
proof (cases rule: step_cases)
  case main
  from main(3) show ?thesis
    using assms(1) by (cases rule: main_step_cases) (auto simp: closed_inv_def)
next
  case (worker j)
  from worker(3) show ?thesis
    using assms(1) by (cases rule: worker_step_cases) (auto simp: closed_inv_def)
qed

lemma enqueued_eq: "pos cfg s' = pos cfg s \<Longrightarrow> enqueued cfg s' = enqueued cfg s"
  by (simp add: enqueued_def)

lemma enqueued_recv:
  assumes "mpc s = MSend n" "mpc s' = MRange (Suc n)" "send_inv cfg s"
  shows "enqueued cfg s' = enqueued cfg s @ [descriptor (Functions cfg ! n)]"
  using assms by (simp add: enqueued_def pos_def send_inv_def take_Suc_conv_app_nth)

lemma enqueued_skip:
  assumes "mpc s = MRange n" "mpc s' = MRange (Suc n)" "n < length (Functions cfg)"
    "SkipBuild (snd (Functions cfg ! n))"
  shows "enqueued cfg s' = enqueued cfg s"
  using assms by (simp add: enqueued_def pos_def take_Suc_conv_app_nth)

lemma enqueued_main:
  assumes "main_step cfg s = Some s'" "send_inv cfg s"
  shows "enqueued cfg s' = enqueued cfg s"
  using assms(1)
proof (cases rule: main_step_cases)
  case (Skip n)
  then show ?thesis by (intro enqueued_skip[of s n]) simp_all
next
  case (RangeEnd n)
  with assms(2) have "n = length (Functions cfg)" by (simp add: send_inv_def)
  with RangeEnd show ?thesis by (simp add: enqueued_def pos_def)
qed (simp_all add: enqueued_def pos_def)

lemma held_main:
  assumes "main_step cfg s = Some s'" "g WAdd = 0"
  shows "held g s' = held g s"
  using assms(1) by (cases rule: main_step_cases) (simp_all add: held_def assms(2))

lemma sum_list_all_zero:
  fixes f :: "'a \<Rightarrow> 'b::comm_monoid_add"
  shows "\<forall>x \<in> set xs. f x = 0 \<Longrightarrow> sum_list (map f xs) = 0"
  by (induction xs) simp_all

lemma wg_zero_held:
  assumes "wg_inv s" "wg s = 0" "\<And>pc. active pc = 0 \<Longrightarrow> g pc = 0"
  shows "held g s = 0"
proof -
  from assms(1,2) have "sum_list (map (\<lambda>w. active (snd w)) (workers s)) = 0"
    by (simp add: wg_inv_def held_def)
  then have "\<forall>w \<in> set (workers s). active (snd w) = 0" by simp
  with assms(3) have "\<forall>w \<in> set (workers s). g (snd w) = 0" by blast
  then show ?thesis unfolding held_def by (rule sum_list_all_zero)
qed


lemma inv_transfer:
  fixes X :: "'a::cancel_comm_monoid_add"
  assumes "X + H = M" "H' + a = H + b" "X' = X + x" "M' + a = M + x + b"
  shows "X' + H' = M'"
proof -
  have "X' + H' + a = X + x + (H + b)" using assms(2,3) by (simp add: add.assoc)
  also have "\<dots> = (X + H) + x + b" by (simp add: ac_simps)
  also have "\<dots> = M' + a" using assms(1,4) by simp
  finally show ?thesis by simp
qed

lemma started_inv_step:
  assumes inv: "started_inv cfg s" and si: "send_inv cfg s" and st: "step cfg a s = Some s'"
  shows "started_inv cfg s'"
  using st
proof (cases rule: step_cases)
  case main
  have e: "enqueued cfg s' = enqueued cfg s" using main(3) si by (rule enqueued_main)
  have h: "held receiving s' = held receiving s" using main(3) by (rule held_main) simp
  have t: "started (trace s') = started (trace s)"
    using main(3) by (cases rule: main_step_cases) simp_all
  from inv show ?thesis unfolding started_inv_def e h t .
next
  case (worker j)
  from worker(3) show ?thesis
  proof (cases rule: worker_step_cases)
    case (Add i)
    have h: "held receiving s' + receiving (WAdd) = held receiving s + receiving (WRecv)"
      by (rule held_update[OF Add(1,2)]) (simp add: Add)
    have e: "enqueued cfg s' = enqueued cfg s"
      by (rule enqueued_eq) (simp add: Add pos_def)
    have t: "trace s' = trace s" by (simp add: Add)
    show ?thesis
      unfolding started_inv_def
      by (rule inv_transfer[OF inv[unfolded started_inv_def] h, where x = "{#}"])
         (simp_all add: e t )
  next
    case (Recv i n)
    have h: "held receiving s' + receiving (WRecv) = held receiving s + receiving (WStart (descriptor (Functions cfg ! n)))"
      by (rule held_update[OF Recv(1,2)]) (simp add: Recv)
    have e: "enqueued cfg s' = enqueued cfg s @ [descriptor (Functions cfg ! n)]"
      by (rule enqueued_recv[OF Recv(3) _ si]) (simp add: Recv)
    have t: "trace s' = trace s" by (simp add: Recv)
    show ?thesis
      unfolding started_inv_def
      by (rule inv_transfer[OF inv[unfolded started_inv_def] h, where x = "{#}"])
         (simp_all add: e t )
  next
    case (RecvClosed i)
    have h: "held receiving s' + receiving (WRecv) = held receiving s + receiving (WExit)"
      by (rule held_update[OF RecvClosed(1,2)]) (simp add: RecvClosed)
    have e: "enqueued cfg s' = enqueued cfg s"
      by (rule enqueued_eq) (simp add: RecvClosed pos_def)
    have t: "trace s' = trace s" by (simp add: RecvClosed)
    show ?thesis
      unfolding started_inv_def
      by (rule inv_transfer[OF inv[unfolded started_inv_def] h, where x = "{#}"])
         (simp_all add: e t )
  next
    case (Start i f)
    have h: "held receiving s' + receiving (WStart f) = held receiving s + receiving (WBuild f)"
      by (rule held_update[OF Start(1,2)]) (simp add: Start)
    have e: "enqueued cfg s' = enqueued cfg s"
      by (rule enqueued_eq) (simp add: Start pos_def)
    have t: "trace s' = trace s @ [Building i (Name f)]" by (simp add: Start)
    show ?thesis
      unfolding started_inv_def
      by (rule inv_transfer[OF inv[unfolded started_inv_def] h, where x = "mset (started_name (Building i (Name f)))"])
         (simp_all add: e t )
  next
    case (NoLang i f)
    have h: "held receiving s' + receiving (WBuild f) = held receiving s + receiving (WDone f)"
      by (rule held_update[OF NoLang(1,2)]) (simp add: NoLang)
    have e: "enqueued cfg s' = enqueued cfg s"
      by (rule enqueued_eq) (simp add: NoLang pos_def)
    have t: "trace s' = trace s @ [NoLanguage]" by (simp add: NoLang)
    show ?thesis
      unfolding started_inv_def
      by (rule inv_transfer[OF inv[unfolded started_inv_def] h, where x = "mset (started_name (NoLanguage))"])
         (simp_all add: e t NoLang(3))
  next
    case (Invoke i f)
    have h: "held receiving s' + receiving (WBuild f) = held receiving s + receiving (WDone f)"
      by (rule held_update[OF Invoke(1,2)]) (simp add: Invoke)
    have e: "enqueued cfg s' = enqueued cfg s"
      by (rule enqueued_eq) (simp add: Invoke pos_def)
    have t: "trace s' = trace s @ [call cfg f]" by (simp add: Invoke)
    show ?thesis
      unfolding started_inv_def
      by (rule inv_transfer[OF inv[unfolded started_inv_def] h, where x = "mset (started_name (call cfg f))"])
         (simp_all add: e t Invoke(3))
  next
    case (Done i f)
    have h: "held receiving s' + receiving (WDone f) = held receiving s + receiving (WRecv)"
      by (rule held_update[OF Done(1,2)]) (simp add: Done)
    have e: "enqueued cfg s' = enqueued cfg s"
      by (rule enqueued_eq) (simp add: Done pos_def)
    have t: "trace s' = trace s @ [BuildingDone i (Name f)]" by (simp add: Done)
    show ?thesis
      unfolding started_inv_def
      by (rule inv_transfer[OF inv[unfolded started_inv_def] h, where x = "mset (started_name (BuildingDone i (Name f)))"])
         (simp_all add: e t )
  next
    case (Exit i)
    have h: "held receiving s' + receiving (WExit) = held receiving s + receiving (WFinish)"
      by (rule held_update[OF Exit(1,2)]) (simp add: Exit)
    have e: "enqueued cfg s' = enqueued cfg s"
      by (rule enqueued_eq) (simp add: Exit pos_def)
    have t: "trace s' = trace s @ [WorkerDone i]" by (simp add: Exit)
    show ?thesis
      unfolding started_inv_def
      by (rule inv_transfer[OF inv[unfolded started_inv_def] h, where x = "mset (started_name (WorkerDone i))"])
         (simp_all add: e t )
  next
    case (Panic i)
    have h: "held receiving s' + receiving (WFinish) = held receiving s + receiving (WFinish)"
      by (rule held_update[OF Panic(1,2)]) (simp add: Panic)
    have e: "enqueued cfg s' = enqueued cfg s"
      by (rule enqueued_eq) (simp add: Panic pos_def)
    have t: "trace s' = trace s" by (simp add: Panic)
    show ?thesis
      unfolding started_inv_def
      by (rule inv_transfer[OF inv[unfolded started_inv_def] h, where x = "{#}"])
         (simp_all add: e t )
  next
    case (Finish i)
    have h: "held receiving s' + receiving (WFinish) = held receiving s + receiving (WGone)"
      by (rule held_update[OF Finish(1,2)]) (simp add: Finish)
    have e: "enqueued cfg s' = enqueued cfg s"
      by (rule enqueued_eq) (simp add: Finish pos_def)
    have t: "trace s' = trace s" by (simp add: Finish)
    show ?thesis
      unfolding started_inv_def
      by (rule inv_transfer[OF inv[unfolded started_inv_def] h, where x = "{#}"])
         (simp_all add: e t )
  qed
qed

lemma built_inv_step:
  assumes inv: "built_inv cfg s" and si: "send_inv cfg s" and st: "step cfg a s = Some s'"
  shows "built_inv cfg s'"
  using st
proof (cases rule: step_cases)
  case main
  have e: "enqueued cfg s' = enqueued cfg s" using main(3) si by (rule enqueued_main)
  have h: "held unbuilt s' = held unbuilt s" using main(3) by (rule held_main) simp
  have t: "built (trace s') = built (trace s)"
    using main(3) by (cases rule: main_step_cases) simp_all
  from inv show ?thesis unfolding built_inv_def e h t .
next
  case (worker j)
  from worker(3) show ?thesis
  proof (cases rule: worker_step_cases)
    case (Add i)
    have h: "held unbuilt s' + unbuilt (WAdd) = held unbuilt s + unbuilt (WRecv)"
      by (rule held_update[OF Add(1,2)]) (simp add: Add)
    have e: "enqueued cfg s' = enqueued cfg s"
      by (rule enqueued_eq) (simp add: Add pos_def)
    have t: "trace s' = trace s" by (simp add: Add)
    show ?thesis
      unfolding built_inv_def
      by (rule inv_transfer[OF inv[unfolded built_inv_def] h, where x = "{#}"])
         (simp_all add: e t )
  next
    case (Recv i n)
    have h: "held unbuilt s' + unbuilt (WRecv) = held unbuilt s + unbuilt (WStart (descriptor (Functions cfg ! n)))"
      by (rule held_update[OF Recv(1,2)]) (simp add: Recv)
    have e: "enqueued cfg s' = enqueued cfg s @ [descriptor (Functions cfg ! n)]"
      by (rule enqueued_recv[OF Recv(3) _ si]) (simp add: Recv)
    have t: "trace s' = trace s" by (simp add: Recv)
    show ?thesis
      unfolding built_inv_def
      by (rule inv_transfer[OF inv[unfolded built_inv_def] h, where x = "{#}"])
         (simp_all add: e t )
  next
    case (RecvClosed i)
    have h: "held unbuilt s' + unbuilt (WRecv) = held unbuilt s + unbuilt (WExit)"
      by (rule held_update[OF RecvClosed(1,2)]) (simp add: RecvClosed)
    have e: "enqueued cfg s' = enqueued cfg s"
      by (rule enqueued_eq) (simp add: RecvClosed pos_def)
    have t: "trace s' = trace s" by (simp add: RecvClosed)
    show ?thesis
      unfolding built_inv_def
      by (rule inv_transfer[OF inv[unfolded built_inv_def] h, where x = "{#}"])
         (simp_all add: e t )
  next
    case (Start i f)
    have h: "held unbuilt s' + unbuilt (WStart f) = held unbuilt s + unbuilt (WBuild f)"
      by (rule held_update[OF Start(1,2)]) (simp add: Start)
    have e: "enqueued cfg s' = enqueued cfg s"
      by (rule enqueued_eq) (simp add: Start pos_def)
    have t: "trace s' = trace s @ [Building i (Name f)]" by (simp add: Start)
    show ?thesis
      unfolding built_inv_def
      by (rule inv_transfer[OF inv[unfolded built_inv_def] h, where x = "mset (built_name (Building i (Name f)))"])
         (simp_all add: e t )
  next
    case (NoLang i f)
    have h: "held unbuilt s' + unbuilt (WBuild f) = held unbuilt s + unbuilt (WDone f)"
      by (rule held_update[OF NoLang(1,2)]) (simp add: NoLang)
    have e: "enqueued cfg s' = enqueued cfg s"
      by (rule enqueued_eq) (simp add: NoLang pos_def)
    have t: "trace s' = trace s @ [NoLanguage]" by (simp add: NoLang)
    show ?thesis
      unfolding built_inv_def
      by (rule inv_transfer[OF inv[unfolded built_inv_def] h, where x = "mset (built_name (NoLanguage))"])
         (simp_all add: e t NoLang(3))
  next
    case (Invoke i f)
    have h: "held unbuilt s' + unbuilt (WBuild f) = held unbuilt s + unbuilt (WDone f)"
      by (rule held_update[OF Invoke(1,2)]) (simp add: Invoke)
    have e: "enqueued cfg s' = enqueued cfg s"
      by (rule enqueued_eq) (simp add: Invoke pos_def)
    have t: "trace s' = trace s @ [call cfg f]" by (simp add: Invoke)
    show ?thesis
      unfolding built_inv_def
      by (rule inv_transfer[OF inv[unfolded built_inv_def] h, where x = "mset (built_name (call cfg f))"])
         (simp_all add: e t Invoke(3))
  next
    case (Done i f)
    have h: "held unbuilt s' + unbuilt (WDone f) = held unbuilt s + unbuilt (WRecv)"
      by (rule held_update[OF Done(1,2)]) (simp add: Done)
    have e: "enqueued cfg s' = enqueued cfg s"
      by (rule enqueued_eq) (simp add: Done pos_def)
    have t: "trace s' = trace s @ [BuildingDone i (Name f)]" by (simp add: Done)
    show ?thesis
      unfolding built_inv_def
      by (rule inv_transfer[OF inv[unfolded built_inv_def] h, where x = "mset (built_name (BuildingDone i (Name f)))"])
         (simp_all add: e t )
  next
    case (Exit i)
    have h: "held unbuilt s' + unbuilt (WExit) = held unbuilt s + unbuilt (WFinish)"
      by (rule held_update[OF Exit(1,2)]) (simp add: Exit)
    have e: "enqueued cfg s' = enqueued cfg s"
      by (rule enqueued_eq) (simp add: Exit pos_def)
    have t: "trace s' = trace s @ [WorkerDone i]" by (simp add: Exit)
    show ?thesis
      unfolding built_inv_def
      by (rule inv_transfer[OF inv[unfolded built_inv_def] h, where x = "mset (built_name (WorkerDone i))"])
         (simp_all add: e t )
  next
    case (Panic i)
    have h: "held unbuilt s' + unbuilt (WFinish) = held unbuilt s + unbuilt (WFinish)"
      by (rule held_update[OF Panic(1,2)]) (simp add: Panic)
    have e: "enqueued cfg s' = enqueued cfg s"
      by (rule enqueued_eq) (simp add: Panic pos_def)
    have t: "trace s' = trace s" by (simp add: Panic)
    show ?thesis
      unfolding built_inv_def
      by (rule inv_transfer[OF inv[unfolded built_inv_def] h, where x = "{#}"])
         (simp_all add: e t )
  next
    case (Finish i)
    have h: "held unbuilt s' + unbuilt (WFinish) = held unbuilt s + unbuilt (WGone)"
      by (rule held_update[OF Finish(1,2)]) (simp add: Finish)
    have e: "enqueued cfg s' = enqueued cfg s"
      by (rule enqueued_eq) (simp add: Finish pos_def)
    have t: "trace s' = trace s" by (simp add: Finish)
    show ?thesis
      unfolding built_inv_def
      by (rule inv_transfer[OF inv[unfolded built_inv_def] h, where x = "{#}"])
         (simp_all add: e t )
  qed
qed

lemma finished_inv_step:
  assumes inv: "finished_inv cfg s" and si: "send_inv cfg s" and st: "step cfg a s = Some s'"
  shows "finished_inv cfg s'"
  using st
proof (cases rule: step_cases)
  case main
  have e: "enqueued cfg s' = enqueued cfg s" using main(3) si by (rule enqueued_main)
  have h: "held unfinished s' = held unfinished s" using main(3) by (rule held_main) simp
  have t: "finished (trace s') = finished (trace s)"
    using main(3) by (cases rule: main_step_cases) simp_all
  from inv show ?thesis unfolding finished_inv_def e h t .
next
  case (worker j)
  from worker(3) show ?thesis
  proof (cases rule: worker_step_cases)
    case (Add i)
    have h: "held unfinished s' + unfinished (WAdd) = held unfinished s + unfinished (WRecv)"
      by (rule held_update[OF Add(1,2)]) (simp add: Add)
    have e: "enqueued cfg s' = enqueued cfg s"
      by (rule enqueued_eq) (simp add: Add pos_def)
    have t: "trace s' = trace s" by (simp add: Add)
    show ?thesis
      unfolding finished_inv_def
      by (rule inv_transfer[OF inv[unfolded finished_inv_def] h, where x = "{#}"])
         (simp_all add: e t )
  next
    case (Recv i n)
    have h: "held unfinished s' + unfinished (WRecv) = held unfinished s + unfinished (WStart (descriptor (Functions cfg ! n)))"
      by (rule held_update[OF Recv(1,2)]) (simp add: Recv)
    have e: "enqueued cfg s' = enqueued cfg s @ [descriptor (Functions cfg ! n)]"
      by (rule enqueued_recv[OF Recv(3) _ si]) (simp add: Recv)
    have t: "trace s' = trace s" by (simp add: Recv)
    show ?thesis
      unfolding finished_inv_def
      by (rule inv_transfer[OF inv[unfolded finished_inv_def] h, where x = "{#}"])
         (simp_all add: e t )
  next
    case (RecvClosed i)
    have h: "held unfinished s' + unfinished (WRecv) = held unfinished s + unfinished (WExit)"
      by (rule held_update[OF RecvClosed(1,2)]) (simp add: RecvClosed)
    have e: "enqueued cfg s' = enqueued cfg s"
      by (rule enqueued_eq) (simp add: RecvClosed pos_def)
    have t: "trace s' = trace s" by (simp add: RecvClosed)
    show ?thesis
      unfolding finished_inv_def
      by (rule inv_transfer[OF inv[unfolded finished_inv_def] h, where x = "{#}"])
         (simp_all add: e t )
  next
    case (Start i f)
    have h: "held unfinished s' + unfinished (WStart f) = held unfinished s + unfinished (WBuild f)"
      by (rule held_update[OF Start(1,2)]) (simp add: Start)
    have e: "enqueued cfg s' = enqueued cfg s"
      by (rule enqueued_eq) (simp add: Start pos_def)
    have t: "trace s' = trace s @ [Building i (Name f)]" by (simp add: Start)
    show ?thesis
      unfolding finished_inv_def
      by (rule inv_transfer[OF inv[unfolded finished_inv_def] h, where x = "mset (finished_name (Building i (Name f)))"])
         (simp_all add: e t )
  next
    case (NoLang i f)
    have h: "held unfinished s' + unfinished (WBuild f) = held unfinished s + unfinished (WDone f)"
      by (rule held_update[OF NoLang(1,2)]) (simp add: NoLang)
    have e: "enqueued cfg s' = enqueued cfg s"
      by (rule enqueued_eq) (simp add: NoLang pos_def)
    have t: "trace s' = trace s @ [NoLanguage]" by (simp add: NoLang)
    show ?thesis
      unfolding finished_inv_def
      by (rule inv_transfer[OF inv[unfolded finished_inv_def] h, where x = "mset (finished_name (NoLanguage))"])
         (simp_all add: e t NoLang(3))
  next
    case (Invoke i f)
    have h: "held unfinished s' + unfinished (WBuild f) = held unfinished s + unfinished (WDone f)"
      by (rule held_update[OF Invoke(1,2)]) (simp add: Invoke)
    have e: "enqueued cfg s' = enqueued cfg s"
      by (rule enqueued_eq) (simp add: Invoke pos_def)
    have t: "trace s' = trace s @ [call cfg f]" by (simp add: Invoke)
    show ?thesis
      unfolding finished_inv_def
      by (rule inv_transfer[OF inv[unfolded finished_inv_def] h, where x = "mset (finished_name (call cfg f))"])
         (simp_all add: e t Invoke(3))
  next
    case (Done i f)
    have h: "held unfinished s' + unfinished (WDone f) = held unfinished s + unfinished (WRecv)"
      by (rule held_update[OF Done(1,2)]) (simp add: Done)
    have e: "enqueued cfg s' = enqueued cfg s"
      by (rule enqueued_eq) (simp add: Done pos_def)
    have t: "trace s' = trace s @ [BuildingDone i (Name f)]" by (simp add: Done)
    show ?thesis
      unfolding finished_inv_def
      by (rule inv_transfer[OF inv[unfolded finished_inv_def] h, where x = "mset (finished_name (BuildingDone i (Name f)))"])
         (simp_all add: e t )
  next
    case (Exit i)
    have h: "held unfinished s' + unfinished (WExit) = held unfinished s + unfinished (WFinish)"
      by (rule held_update[OF Exit(1,2)]) (simp add: Exit)
    have e: "enqueued cfg s' = enqueued cfg s"
      by (rule enqueued_eq) (simp add: Exit pos_def)
    have t: "trace s' = trace s @ [WorkerDone i]" by (simp add: Exit)
    show ?thesis
      unfolding finished_inv_def
      by (rule inv_transfer[OF inv[unfolded finished_inv_def] h, where x = "mset (finished_name (WorkerDone i))"])
         (simp_all add: e t )
  next
    case (Panic i)
    have h: "held unfinished s' + unfinished (WFinish) = held unfinished s + unfinished (WFinish)"
      by (rule held_update[OF Panic(1,2)]) (simp add: Panic)
    have e: "enqueued cfg s' = enqueued cfg s"
      by (rule enqueued_eq) (simp add: Panic pos_def)
    have t: "trace s' = trace s" by (simp add: Panic)
    show ?thesis
      unfolding finished_inv_def
      by (rule inv_transfer[OF inv[unfolded finished_inv_def] h, where x = "{#}"])
         (simp_all add: e t )
  next
    case (Finish i)
    have h: "held unfinished s' + unfinished (WFinish) = held unfinished s + unfinished (WGone)"
      by (rule held_update[OF Finish(1,2)]) (simp add: Finish)
    have e: "enqueued cfg s' = enqueued cfg s"
      by (rule enqueued_eq) (simp add: Finish pos_def)
    have t: "trace s' = trace s" by (simp add: Finish)
    show ?thesis
      unfolding finished_inv_def
      by (rule inv_transfer[OF inv[unfolded finished_inv_def] h, where x = "{#}"])
         (simp_all add: e t )
  qed
qed

lemma returned_inv_step:
  assumes inv: "returned_inv s" and wi: "wg_inv s" and st: "step cfg a s = Some s'"
  shows "returned_inv s'"
  using st
proof (cases rule: step_cases)
  case main
  from main(3) show ?thesis
  proof (cases rule: main_step_cases)
    case Wait
    have "held unfinished s = 0"
      using wi Wait(2) by (rule wg_zero_held) (auto simp: active_def unfinished_def split: worker_pc.splits)
    with Wait show ?thesis by (simp add: returned_inv_def held_def)
  qed (simp_all add: returned_inv_def)
next
  case (worker j)
  from worker(3) show ?thesis
  proof (cases rule: worker_step_cases)
    case (Add i)
    from held_update[OF Add(1,2), of s' "WRecv" unfinished] Add inv
    show ?thesis by (simp add: returned_inv_def)
  next
    case (Recv i n)
    then show ?thesis by (simp add: returned_inv_def)
  next
    case (RecvClosed i)
    from held_update[OF RecvClosed(1,2), of s' "WExit" unfinished] RecvClosed inv
    show ?thesis by (simp add: returned_inv_def)
  next
    case (Start i f)
    from held_update[OF Start(1,2), of s' "WBuild f" unfinished] Start inv
    show ?thesis by (simp add: returned_inv_def)
  next
    case (NoLang i f)
    from held_update[OF NoLang(1,2), of s' "WDone f" unfinished] NoLang inv
    show ?thesis by (simp add: returned_inv_def)
  next
    case (Invoke i f)
    from held_update[OF Invoke(1,2), of s' "WDone f" unfinished] Invoke inv
    show ?thesis by (simp add: returned_inv_def)
  next
    case (Done i f)
    from held_update[OF Done(1,2), of s' "WRecv" unfinished] Done inv
    show ?thesis by (auto simp: returned_inv_def)
  next
    case (Exit i)
    from held_update[OF Exit(1,2), of s' "WFinish" unfinished] Exit inv
    show ?thesis by (simp add: returned_inv_def)
  next
    case (Panic i)
    from held_update[OF Panic(1,2), of s' "WFinish" unfinished] Panic inv
    show ?thesis by (simp add: returned_inv_def)
  next
    case (Finish i)
    from held_update[OF Finish(1,2), of s' "WGone" unfinished] Finish inv
    show ?thesis by (simp add: returned_inv_def)
  qed
qed

lemma skipped_inv_step:
  assumes inv: "skipped_inv cfg s" and si: "send_inv cfg s" and st: "step cfg a s = Some s'"
  shows "skipped_inv cfg s'"
  using st
proof (cases rule: step_cases)
  case main
  from main(3) show ?thesis
  proof (cases rule: main_step_cases)
    case (RangeEnd n)
    with si have "n = length (Functions cfg)" by (simp add: send_inv_def)
    with RangeEnd inv show ?thesis by (simp add: skipped_inv_def pos_def)
  qed (use inv in \<open>simp_all add: skipped_inv_def pos_def take_Suc_conv_app_nth\<close>)
next
  case (worker j)
  from worker(3) show ?thesis
  proof (cases rule: worker_step_cases)
    case (Recv i n)
    with si have "n < length (Functions cfg)" "\<not> SkipBuild (snd (Functions cfg ! n))"
      by (simp_all add: send_inv_def)
    with Recv inv show ?thesis by (simp add: skipped_inv_def pos_def take_Suc_conv_app_nth)
  qed (use inv in \<open>simp_all add: skipped_inv_def pos_def\<close>)
qed

lemma map_fst_update:
  "j < length xs \<Longrightarrow> xs ! j = (i, pc) \<Longrightarrow> map fst (xs[j := (i, pc')]) = map fst xs"
  by (simp add: map_update list_update_same_conv)

lemma spawn_inv_step:
  assumes inv: "spawn_inv cfg s" and st: "step cfg a s = Some s'"
  shows "spawn_inv cfg s'"
  using st
proof (cases rule: step_cases)
  case main
  from main(3) show ?thesis
  proof (cases rule: main_step_cases)
    case (Spawn i)
    with inv have "0 \<le> i" and m: "map fst (workers s) = map int [0..<nat i]"
      and r: "trace s = []" "\<not> closed s" "\<forall>w \<in> set (workers s). snd w = WAdd \<or> snd w = WRecv"
      by (simp_all add: spawn_inv_def)
    from \<open>0 \<le> i\<close> have "nat (i + 1) = Suc (nat i)" by simp
    with Spawn m r \<open>0 \<le> i\<close> show ?thesis by (simp add: spawn_inv_def)
  next
    case (SpawnEnd i)
    with inv have "0 \<le> i" "i \<le> queueDepth cfg \<or> i = 0"
      and m: "map fst (workers s) = map int [0..<nat i]"
      by (simp_all add: spawn_inv_def)
    with SpawnEnd(2) have "nat i = nat (queueDepth cfg)" by auto
    with SpawnEnd m show ?thesis by (simp add: spawn_inv_def)
  qed (use inv in \<open>simp_all add: spawn_inv_def\<close>)
next
  case (worker j)
  from worker(3) show ?thesis
  proof (cases rule: worker_step_cases)
    case (Add i)
    have "map fst (workers s') = map fst (workers s)"
      using Add by (simp add: map_fst_update)
    moreover have "(\<forall>w \<in> set (workers s). snd w = WAdd \<or> snd w = WRecv) \<Longrightarrow>
        (\<forall>w \<in> set (workers s'). snd w = WAdd \<or> snd w = WRecv)"
      using Add(3) by (auto dest!: set_update_subset_insert[THEN subsetD])
    ultimately show ?thesis using inv Add(3)
      by (auto simp: spawn_inv_def split: main_pc.splits)
  next
    case (Recv i n)
    then have "map fst (workers s') = map fst (workers s)" by (simp add: map_fst_update)
    with inv Recv show ?thesis by (simp add: spawn_inv_def)
  next
    case (RecvClosed i)
    then have "map fst (workers s') = map fst (workers s)" by (simp add: map_fst_update)
    with inv RecvClosed show ?thesis by (auto simp: spawn_inv_def split: main_pc.splits)
  next
    case (Start i f)
    then have m: "map fst (workers s') = map fst (workers s)" by (simp add: map_fst_update)
    from Start(1,2) have "(i, WStart f) \<in> set (workers s)" by (metis nth_mem)
    with inv m Start show ?thesis by (auto simp: spawn_inv_def split: main_pc.splits)
  next
    case (NoLang i f)
    then have m: "map fst (workers s') = map fst (workers s)" by (simp add: map_fst_update)
    from NoLang(1,2) have "(i, WBuild f) \<in> set (workers s)" by (metis nth_mem)
    with inv m NoLang show ?thesis by (auto simp: spawn_inv_def split: main_pc.splits)
  next
    case (Invoke i f)
    then have m: "map fst (workers s') = map fst (workers s)" by (simp add: map_fst_update)
    from Invoke(1,2) have "(i, WBuild f) \<in> set (workers s)" by (metis nth_mem)
    with inv m Invoke show ?thesis by (auto simp: spawn_inv_def split: main_pc.splits)
  next
    case (Done i f)
    then have m: "map fst (workers s') = map fst (workers s)" by (simp add: map_fst_update)
    from Done(1,2) have "(i, WDone f) \<in> set (workers s)" by (metis nth_mem)
    with inv m Done show ?thesis by (auto simp: spawn_inv_def split: main_pc.splits)
  next
    case (Exit i)
    then have m: "map fst (workers s') = map fst (workers s)" by (simp add: map_fst_update)
    from Exit(1,2) have "(i, WExit) \<in> set (workers s)" by (metis nth_mem)
    with inv m Exit show ?thesis by (auto simp: spawn_inv_def split: main_pc.splits)
  next
    case (Panic i)
    then have m: "map fst (workers s') = map fst (workers s)" by (simp add: map_fst_update)
    from Panic(1,2) have "(i, WFinish) \<in> set (workers s)" by (metis nth_mem)
    with inv m Panic show ?thesis by (auto simp: spawn_inv_def split: main_pc.splits)
  next
    case (Finish i)
    then have m: "map fst (workers s') = map fst (workers s)" by (simp add: map_fst_update)
    from Finish(1,2) have "(i, WFinish) \<in> set (workers s)" by (metis nth_mem)
    with inv m Finish show ?thesis by (auto simp: spawn_inv_def split: main_pc.splits)
  qed
qed

lemma holds_update:
  assumes "\<forall>w \<in> set xs. set (holds (snd w)) \<subseteq> A" "set (holds pc') \<subseteq> A'" "A \<subseteq> A'"
  shows "\<forall>w \<in> set (xs[j := (i, pc')]). set (holds (snd w)) \<subseteq> A'"
proof
  fix w assume "w \<in> set (xs[j := (i, pc')])"
  then have "w = (i, pc') \<or> w \<in> set xs"
    using set_update_subset_insert[of xs j "(i, pc')"] by auto
  with assms show "set (holds (snd w)) \<subseteq> A'" by auto
qed

lemma origin_inv_step:
  assumes inv: "origin_inv cfg s" and si: "send_inv cfg s" and st: "step cfg a s = Some s'"
  shows "origin_inv cfg s'"
proof -
  from inv have a: "\<forall>w \<in> set (workers s). set (holds (snd w)) \<subseteq> set (enqueued cfg s)"
    and b: "\<forall>e \<in> set (trace s). built_name e = [] \<or>
        (\<exists>f \<in> set (enqueued cfg s). e = call cfg f \<and> Language f \<noteq> [])"
    by (simp_all add: origin_inv_def)
  from st show ?thesis
  proof (cases rule: step_cases)
    case main
    have e: "enqueued cfg s' = enqueued cfg s" using main(3) si by (rule enqueued_main)
    from main(3) a b show ?thesis
      unfolding origin_inv_def e by (cases rule: main_step_cases) (auto simp: holds_def)
  next
    case (worker j)
    from worker(3) show ?thesis
    proof (cases rule: worker_step_cases)
    case (Add i)
    have e: "enqueued cfg s' = enqueued cfg s"
      by (rule enqueued_eq) (simp add: Add pos_def)
    have t: "trace s' = trace s" by (simp add: Add)
    have m: "(i, WAdd) \<in> set (workers s)" using Add(1,2) by (metis nth_mem)
    with a have o: "set (holds (WAdd)) \<subseteq> set (enqueued cfg s)" by fastforce
    have w: "workers s' = (workers s)[j := (i, WRecv)]" by (simp add: Add)
    have a': "\<forall>w \<in> set (workers s'). set (holds (snd w)) \<subseteq> set (enqueued cfg s')"
      unfolding w by (rule holds_update[OF a]) (use o in \<open>auto simp: e holds_def\<close>)
    from b o have "\<forall>e \<in> set (trace s'). built_name e = [] \<or>
        (\<exists>f \<in> set (enqueued cfg s'). e = call cfg f \<and> Language f \<noteq> [])"
      unfolding e t by (auto simp: holds_def)
    with a' show ?thesis by (simp add: origin_inv_def)
  next
    case (Recv i n)
    have e: "enqueued cfg s' = enqueued cfg s @ [descriptor (Functions cfg ! n)]"
      by (rule enqueued_recv[OF Recv(3) _ si]) (simp add: Recv)
    have t: "trace s' = trace s" by (simp add: Recv)
    have m: "(i, WRecv) \<in> set (workers s)" using Recv(1,2) by (metis nth_mem)
    with a have o: "set (holds (WRecv)) \<subseteq> set (enqueued cfg s)" by fastforce
    have w: "workers s' = (workers s)[j := (i, WStart (descriptor (Functions cfg ! n)))]" by (simp add: Recv)
    have a': "\<forall>w \<in> set (workers s'). set (holds (snd w)) \<subseteq> set (enqueued cfg s')"
      unfolding w by (rule holds_update[OF a]) (use o in \<open>auto simp: e holds_def\<close>)
    from b o have "\<forall>e \<in> set (trace s'). built_name e = [] \<or>
        (\<exists>f \<in> set (enqueued cfg s'). e = call cfg f \<and> Language f \<noteq> [])"
      unfolding e t by (auto simp: holds_def)
    with a' show ?thesis by (simp add: origin_inv_def)
  next
    case (RecvClosed i)
    have e: "enqueued cfg s' = enqueued cfg s"
      by (rule enqueued_eq) (simp add: RecvClosed pos_def)
    have t: "trace s' = trace s" by (simp add: RecvClosed)
    have m: "(i, WRecv) \<in> set (workers s)" using RecvClosed(1,2) by (metis nth_mem)
    with a have o: "set (holds (WRecv)) \<subseteq> set (enqueued cfg s)" by fastforce
    have w: "workers s' = (workers s)[j := (i, WExit)]" by (simp add: RecvClosed)
    have a': "\<forall>w \<in> set (workers s'). set (holds (snd w)) \<subseteq> set (enqueued cfg s')"
      unfolding w by (rule holds_update[OF a]) (use o in \<open>auto simp: e holds_def\<close>)
    from b o have "\<forall>e \<in> set (trace s'). built_name e = [] \<or>
        (\<exists>f \<in> set (enqueued cfg s'). e = call cfg f \<and> Language f \<noteq> [])"
      unfolding e t by (auto simp: holds_def)
    with a' show ?thesis by (simp add: origin_inv_def)
  next
    case (Start i f)
    have e: "enqueued cfg s' = enqueued cfg s"
      by (rule enqueued_eq) (simp add: Start pos_def)
    have t: "trace s' = trace s @ [Building i (Name f)]" by (simp add: Start)
    have m: "(i, WStart f) \<in> set (workers s)" using Start(1,2) by (metis nth_mem)
    with a have o: "set (holds (WStart f)) \<subseteq> set (enqueued cfg s)" by fastforce
    have w: "workers s' = (workers s)[j := (i, WBuild f)]" by (simp add: Start)
    have a': "\<forall>w \<in> set (workers s'). set (holds (snd w)) \<subseteq> set (enqueued cfg s')"
      unfolding w by (rule holds_update[OF a]) (use o in \<open>auto simp: e holds_def\<close>)
    from b o have "\<forall>e \<in> set (trace s'). built_name e = [] \<or>
        (\<exists>f \<in> set (enqueued cfg s'). e = call cfg f \<and> Language f \<noteq> [])"
      unfolding e t by (auto simp: holds_def)
    with a' show ?thesis by (simp add: origin_inv_def)
  next
    case (NoLang i f)
    have e: "enqueued cfg s' = enqueued cfg s"
      by (rule enqueued_eq) (simp add: NoLang pos_def)
    have t: "trace s' = trace s @ [NoLanguage]" by (simp add: NoLang)
    have m: "(i, WBuild f) \<in> set (workers s)" using NoLang(1,2) by (metis nth_mem)
    with a have o: "set (holds (WBuild f)) \<subseteq> set (enqueued cfg s)" by fastforce
    have w: "workers s' = (workers s)[j := (i, WDone f)]" by (simp add: NoLang)
    have a': "\<forall>w \<in> set (workers s'). set (holds (snd w)) \<subseteq> set (enqueued cfg s')"
      unfolding w by (rule holds_update[OF a]) (use o in \<open>auto simp: e holds_def\<close>)
    from b o NoLang(3) have "\<forall>e \<in> set (trace s'). built_name e = [] \<or>
        (\<exists>f \<in> set (enqueued cfg s'). e = call cfg f \<and> Language f \<noteq> [])"
      unfolding e t by (auto simp: holds_def)
    with a' show ?thesis by (simp add: origin_inv_def)
  next
    case (Invoke i f)
    have e: "enqueued cfg s' = enqueued cfg s"
      by (rule enqueued_eq) (simp add: Invoke pos_def)
    have t: "trace s' = trace s @ [call cfg f]" by (simp add: Invoke)
    have m: "(i, WBuild f) \<in> set (workers s)" using Invoke(1,2) by (metis nth_mem)
    with a have o: "set (holds (WBuild f)) \<subseteq> set (enqueued cfg s)" by fastforce
    have w: "workers s' = (workers s)[j := (i, WDone f)]" by (simp add: Invoke)
    have a': "\<forall>w \<in> set (workers s'). set (holds (snd w)) \<subseteq> set (enqueued cfg s')"
      unfolding w by (rule holds_update[OF a]) (use o in \<open>auto simp: e holds_def\<close>)
    from b o Invoke(3) have "\<forall>e \<in> set (trace s'). built_name e = [] \<or>
        (\<exists>f \<in> set (enqueued cfg s'). e = call cfg f \<and> Language f \<noteq> [])"
      unfolding e t by (auto simp: holds_def)
    with a' show ?thesis by (simp add: origin_inv_def)
  next
    case (Done i f)
    have e: "enqueued cfg s' = enqueued cfg s"
      by (rule enqueued_eq) (simp add: Done pos_def)
    have t: "trace s' = trace s @ [BuildingDone i (Name f)]" by (simp add: Done)
    have m: "(i, WDone f) \<in> set (workers s)" using Done(1,2) by (metis nth_mem)
    with a have o: "set (holds (WDone f)) \<subseteq> set (enqueued cfg s)" by fastforce
    have w: "workers s' = (workers s)[j := (i, WRecv)]" by (simp add: Done)
    have a': "\<forall>w \<in> set (workers s'). set (holds (snd w)) \<subseteq> set (enqueued cfg s')"
      unfolding w by (rule holds_update[OF a]) (use o in \<open>auto simp: e holds_def\<close>)
    from b o have "\<forall>e \<in> set (trace s'). built_name e = [] \<or>
        (\<exists>f \<in> set (enqueued cfg s'). e = call cfg f \<and> Language f \<noteq> [])"
      unfolding e t by (auto simp: holds_def)
    with a' show ?thesis by (simp add: origin_inv_def)
  next
    case (Exit i)
    have e: "enqueued cfg s' = enqueued cfg s"
      by (rule enqueued_eq) (simp add: Exit pos_def)
    have t: "trace s' = trace s @ [WorkerDone i]" by (simp add: Exit)
    have m: "(i, WExit) \<in> set (workers s)" using Exit(1,2) by (metis nth_mem)
    with a have o: "set (holds (WExit)) \<subseteq> set (enqueued cfg s)" by fastforce
    have w: "workers s' = (workers s)[j := (i, WFinish)]" by (simp add: Exit)
    have a': "\<forall>w \<in> set (workers s'). set (holds (snd w)) \<subseteq> set (enqueued cfg s')"
      unfolding w by (rule holds_update[OF a]) (use o in \<open>auto simp: e holds_def\<close>)
    from b o have "\<forall>e \<in> set (trace s'). built_name e = [] \<or>
        (\<exists>f \<in> set (enqueued cfg s'). e = call cfg f \<and> Language f \<noteq> [])"
      unfolding e t by (auto simp: holds_def)
    with a' show ?thesis by (simp add: origin_inv_def)
  next
    case (Panic i)
    have e: "enqueued cfg s' = enqueued cfg s"
      by (rule enqueued_eq) (simp add: Panic pos_def)
    have t: "trace s' = trace s" by (simp add: Panic)
    have m: "(i, WFinish) \<in> set (workers s)" using Panic(1,2) by (metis nth_mem)
    with a have o: "set (holds (WFinish)) \<subseteq> set (enqueued cfg s)" by fastforce
    have w: "workers s' = (workers s)[j := (i, WFinish)]" by (simp add: Panic)
    have a': "\<forall>w \<in> set (workers s'). set (holds (snd w)) \<subseteq> set (enqueued cfg s')"
      unfolding w by (rule holds_update[OF a]) (use o in \<open>auto simp: e holds_def\<close>)
    from b o have "\<forall>e \<in> set (trace s'). built_name e = [] \<or>
        (\<exists>f \<in> set (enqueued cfg s'). e = call cfg f \<and> Language f \<noteq> [])"
      unfolding e t by (auto simp: holds_def)
    with a' show ?thesis by (simp add: origin_inv_def)
  next
    case (Finish i)
    have e: "enqueued cfg s' = enqueued cfg s"
      by (rule enqueued_eq) (simp add: Finish pos_def)
    have t: "trace s' = trace s" by (simp add: Finish)
    have m: "(i, WFinish) \<in> set (workers s)" using Finish(1,2) by (metis nth_mem)
    with a have o: "set (holds (WFinish)) \<subseteq> set (enqueued cfg s)" by fastforce
    have w: "workers s' = (workers s)[j := (i, WGone)]" by (simp add: Finish)
    have a': "\<forall>w \<in> set (workers s'). set (holds (snd w)) \<subseteq> set (enqueued cfg s')"
      unfolding w by (rule holds_update[OF a]) (use o in \<open>auto simp: e holds_def\<close>)
    from b o have "\<forall>e \<in> set (trace s'). built_name e = [] \<or>
        (\<exists>f \<in> set (enqueued cfg s'). e = call cfg f \<and> Language f \<noteq> [])"
      unfolding e t by (auto simp: holds_def)
    with a' show ?thesis by (simp add: origin_inv_def)
    qed
  qed
qed

lemma dispatch_inv_init: "dispatch_inv cfg init"
  by (simp add: dispatch_inv_def init_def wg_inv_def send_inv_def closed_inv_def returned_inv_def
      started_inv_def built_inv_def finished_inv_def skipped_inv_def spawn_inv_def origin_inv_def
      held_def enqueued_def pos_def)

lemma dispatch_inv_step:
  assumes inv: "dispatch_inv cfg s" and st: "step cfg a s = Some s'"
  shows "dispatch_inv cfg s'"
proof -
  from inv have i: "wg_inv s" "send_inv cfg s" "closed_inv s" "returned_inv s" "started_inv cfg s"
    "built_inv cfg s" "finished_inv cfg s" "skipped_inv cfg s" "spawn_inv cfg s" "origin_inv cfg s"
    by (simp_all add: dispatch_inv_def)
  show ?thesis
    unfolding dispatch_inv_def
    using wg_inv_step[OF i(1) st] send_inv_step[OF i(2) st] closed_inv_step[OF i(3) st]
      returned_inv_step[OF i(4) i(1) st] started_inv_step[OF i(5) i(2) st]
      built_inv_step[OF i(6) i(2) st] finished_inv_step[OF i(7) i(2) st]
      skipped_inv_step[OF i(8) i(2) st] spawn_inv_step[OF i(9) st] origin_inv_step[OF i(10) i(2) st]
    by simp
qed

lemma dispatch_inv_build: "dispatch_inv cfg (build cfg sched)"
  unfolding build_def
  by (rule exec_invariant[where P = "dispatch_inv cfg"]) (rule dispatch_inv_init, rule dispatch_inv_step)

lemma key_mem_filter_take:
  assumes "distinct (map fst xs)" "n < length xs"
  shows "(fst (xs ! n) \<in> set (map fst (filter P (take p xs)))) = (n < p \<and> P (xs ! n))"
proof
  assume "fst (xs ! n) \<in> set (map fst (filter P (take p xs)))"
  then obtain x where x: "x \<in> set (take p xs)" "P x" "fst x = fst (xs ! n)" by auto
  from x(1) obtain m where m: "m < p" "m < length xs" "x = xs ! m"
    by (auto simp: in_set_conv_nth)
  from m(2,3) x(3) assms have "m = n"
    by (metis distinct_conv_nth length_map nth_map)
  with m x(2) show "n < p \<and> P (xs ! n)" by simp
next
  assume a: "n < p \<and> P (xs ! n)"
  with assms(2) have "xs ! n \<in> set (take p xs)" by (auto simp: in_set_conv_nth)
  with a show "fst (xs ! n) \<in> set (map fst (filter P (take p xs)))" by auto
qed

lemma key_count_filter_take:
  assumes "distinct (map fst xs)" "n < length xs"
  shows "count (mset (map fst (filter P (take p xs)))) (fst (xs ! n)) =
         (if n < p \<and> P (xs ! n) then 1 else 0)"
proof -
  have "distinct (map fst (filter P (take p xs)))"
    using assms(1) by (simp add: distinct_map_filter distinct_take take_map[symmetric])
  then show ?thesis
    using key_mem_filter_take[OF assms, of P p] by (simp add: distinct_count_atmost_1)
qed

lemma names_enqueued:
  "map Name (enqueued cfg s) =
   map fst (filter (\<lambda>e. \<not> SkipBuild (snd e)) (take (pos cfg s) (Functions cfg)))"
  by (simp add: enqueued_def)

lemma names_valid_enqueued:
  "map Name (filter (\<lambda>f. Language f \<noteq> []) (enqueued cfg s)) =
   map fst (filter (\<lambda>e. \<not> SkipBuild (snd e) \<and> Language (snd e) \<noteq> [])
     (take (pos cfg s) (Functions cfg)))"
  by (simp add: enqueued_def filter_map comp_def conj_commute)

lemma pos_returned: "mpc s = MReturned \<Longrightarrow> pos cfg s = length (Functions cfg)"
  by (simp add: pos_def)

lemma pos_le:
  assumes "send_inv cfg s"
  shows "pos cfg s \<le> length (Functions cfg)"
  using assms by (cases "mpc s") (auto simp: pos_def send_inv_def)

lemma sum_list_subset_mset:
  fixes f g :: "'a \<Rightarrow> 'b multiset"
  assumes "\<And>x. f x \<subseteq># g x"
  shows "sum_list (map f xs) \<subseteq># sum_list (map g xs)"
  by (induction xs) (simp_all add: assms subset_mset.add_mono)

lemma held_unbuilt_le: "held unbuilt s \<subseteq># held unfinished s"
  unfolding held_def
  by (rule sum_list_subset_mset) (simp add: unbuilt_def unfinished_def split: worker_pc.splits)

section \<open>Concrete runs\<close>

lemmas run_defs =
  build_def exec_def sched_step_def step_def main_step_def worker_step_def worker_pc_step_def
  init_def call_def descriptor_def scenario_def fn_a_def fn_b_def fn_c_def

lemma run_one_worker:
  "build (scenario 2) sched_one_worker =
     \<lparr>status = Running, mpc = MReturned, workers = [(0, WGone), (1, WAdd)], wg = 0,
      closed = True,
      trace = [Skipping [], Building 0 ''a'',
        BuildImage ''img/a'' ''./a'' ''a'' ''node'' False False False Map.empty,
        BuildingDone 0 ''a'', Building 0 ''c'', NoLanguage, BuildingDone 0 ''c'', WorkerDone 0]\<rparr>"
  by (simp add: run_defs sched_one_worker_def)

lemma run_two_workers:
  "build (scenario 2) sched_two_workers =
     \<lparr>status = Running, mpc = MReturned, workers = [(0, WGone), (1, WGone)], wg = 0,
      closed = True,
      trace = [Skipping [], Building 0 ''a'', Building 1 ''c'',
        BuildImage ''img/a'' ''./a'' ''a'' ''node'' False False False Map.empty, NoLanguage,
        BuildingDone 0 ''a'', BuildingDone 1 ''c'', WorkerDone 0, WorkerDone 1]\<rparr>"
  by (simp add: run_defs sched_two_workers_def)

section \<open>The dispatch can always be brought to its return\<close>

lemma held_nth_le:
  fixes g :: "worker_pc \<Rightarrow> nat"
  assumes "j < length (workers s)"
  shows "g (snd (workers s ! j)) \<le> held g s"
proof -
  have "workers s ! j \<in> set (workers s)" using assms by (rule nth_mem)
  then have "g (snd (workers s ! j)) \<in> set (map (\<lambda>w. g (snd w)) (workers s))" by auto
  then show ?thesis unfolding held_def by (rule member_le_sum_list) simp
qed

lemma open_inv_step:
  assumes inv: "open_inv s" and st: "step cfg a s = Some s'"
  shows "open_inv s'"
  using st
proof (cases rule: step_cases)
  case main
  from main(3) inv show ?thesis
    by (cases rule: main_step_cases) (auto simp: open_inv_def)
next
  case (worker j)
  have upd: "open_inv s'"
    if "closed s' = closed s" "workers s' = (workers s)[j := (i, pc')]"
      "pc' \<noteq> WExit" "pc' \<noteq> WFinish" "pc' \<noteq> WGone" for i pc'
    using inv that set_update_subset_insert[of "workers s" j "(i, pc')"]
    by (auto simp: open_inv_def)
  have cl: "open_inv s'" if "closed s'" using that by (simp add: open_inv_def)
  from worker(3) show ?thesis
  proof (cases rule: worker_step_cases)
    case (Add i)
    then show ?thesis by (intro upd[of i WRecv]) simp_all
  next
    case (Recv i n)
    then show ?thesis by (intro upd[of i "WStart (descriptor (Functions cfg ! n))"]) simp_all
  next
    case (RecvClosed i)
    then show ?thesis by (intro cl) simp
  next
    case (Start i f)
    then show ?thesis by (intro upd[of i "WBuild f"]) simp_all
  next
    case (NoLang i f)
    then show ?thesis by (intro upd[of i "WDone f"]) simp_all
  next
    case (Invoke i f)
    then show ?thesis by (intro upd[of i "WDone f"]) simp_all
  next
    case (Done i f)
    then show ?thesis by (intro upd[of i WRecv]) simp_all
  next
    case (Exit i)
    then have "(i, WExit) \<in> set (workers s)" by (metis nth_mem)
    with inv have "closed s" by (auto simp: open_inv_def)
    with Exit show ?thesis by (intro cl) simp
  next
    case (Panic i)
    then have "(i, WFinish) \<in> set (workers s)" by (metis nth_mem)
    with inv have "closed s" by (auto simp: open_inv_def)
    with Panic show ?thesis by (intro cl) simp
  next
    case (Finish i)
    then have "(i, WFinish) \<in> set (workers s)" by (metis nth_mem)
    with inv have "closed s" by (auto simp: open_inv_def)
    with Finish show ?thesis by (intro cl) simp
  qed
qed

lemma running_step:
  assumes nf: "\<forall>e. \<not> fatal cfg e" and wi: "wg_inv s" and st: "step cfg a s = Some s'"
  shows "status s' = Running"
  using st
proof (cases rule: step_cases)
  case main
  from main(3) main(1) show ?thesis by (cases rule: main_step_cases) simp_all
next
  case (worker j)
  from worker(3) show ?thesis
  proof (cases rule: worker_step_cases)
    case (Panic i)
    from held_nth_le[OF Panic(1), of active] Panic(2) have "1 \<le> held active s" by simp
    with wi Panic(3) show ?thesis by (simp add: wg_inv_def)
  qed (use worker(1) nf in simp_all)
qed

lemma live_step:
  assumes "\<forall>e. \<not> fatal cfg e" "live cfg s" "step cfg a s = Some s'"
  shows "live cfg s'"
  using assms dispatch_inv_step[of cfg s a s'] open_inv_step[of s cfg a s']
    running_step[of cfg s a s']
  by (simp add: live_def dispatch_inv_def)

lemma live_build:
  assumes "\<forall>e. \<not> fatal cfg e"
  shows "live cfg (build cfg sched)"
  unfolding build_def
proof (rule exec_invariant[where P = "live cfg"])
  show "live cfg init"
    using dispatch_inv_init[of cfg] by (simp add: live_def open_inv_def init_def)
next
  fix s a s' assume "live cfg s" "step cfg a s = Some s'"
  with assms show "live cfg s'" by (rule live_step)
qed

lemma worker_rem_simps [simp]:
  "worker_rem WAdd = 4" "worker_rem WRecv = 3" "worker_rem (WStart f) = 6"
  "worker_rem (WBuild f) = 5" "worker_rem (WDone f) = 4" "worker_rem WExit = 2"
  "worker_rem WFinish = 1" "worker_rem WGone = 0"
  by (simp_all add: worker_rem_def)

text \<open>A worker that takes a descriptor from the producer.\<close>

lemma worker_handoff:
  assumes "status s = Running" "j < length (workers s)" "snd (workers s ! j) = WRecv"
    "mpc s = MSend n"
  shows "\<exists>s'. step cfg (Worker j) s = Some s' \<and> mpc s' = MRange (Suc n)
           \<and> held worker_rem s' = held worker_rem s + 3"
proof -
  obtain i where w: "workers s ! j = (i, WRecv)" using assms(3) by (cases "workers s ! j") simp
  let ?s' = "s\<lparr>mpc := MRange (Suc n),
      workers := (workers s)[j := (i, WStart (descriptor (Functions cfg ! n)))]\<rparr>"
  have st: "step cfg (Worker j) s = Some ?s'"
    using assms w by (simp add: step_def worker_step_def worker_pc_step_def)
  have "held worker_rem ?s' + worker_rem WRecv =
      held worker_rem s + worker_rem (WStart (descriptor (Functions cfg ! n)))"
    by (rule held_update[OF assms(2) w]) simp
  then have "held worker_rem ?s' = held worker_rem s + 3" by simp
  with st show ?thesis by simp
qed

text \<open>A worker that takes any other step.\<close>

lemma worker_advance:
  assumes r: "status s = Running" and j: "j < length (workers s)"
    and ns: "\<forall>n. mpc s \<noteq> MSend n \<or> snd (workers s ! j) \<noteq> WRecv"
    and rc: "snd (workers s ! j) = WRecv \<longrightarrow> closed s"
    and fi: "snd (workers s ! j) = WFinish \<longrightarrow> 0 < wg s"
    and ng: "snd (workers s ! j) \<noteq> WGone"
  shows "\<exists>s'. step cfg (Worker j) s = Some s' \<and> mpc s' = mpc s
           \<and> Suc (held worker_rem s') = held worker_rem s"
proof -
  obtain i pc where w: "workers s ! j = (i, pc)" by (cases "workers s ! j")
  have goal: "\<exists>s'. step cfg (Worker j) s = Some s' \<and> mpc s' = mpc s
      \<and> Suc (held worker_rem s') = held worker_rem s"
    if "worker_pc_step cfg i pc s = Some (pc', t)" "mpc t = mpc s" "workers t = workers s"
      "Suc (worker_rem pc') = worker_rem pc" for pc' t
  proof -
    let ?s' = "t\<lparr>workers := (workers s)[j := (i, pc')]\<rparr>"
    have st: "step cfg (Worker j) s = Some ?s'"
      using r j w that(1) by (simp add: step_def worker_step_def)
    have "held worker_rem ?s' + worker_rem pc = held worker_rem s + worker_rem pc'"
      by (rule held_update[OF j w]) simp
    with that(4) have "Suc (held worker_rem ?s') = held worker_rem s" by simp
    with st that(2) show ?thesis by simp
  qed
  show ?thesis
  proof (cases pc)
    case WAdd
    then show ?thesis by (intro goal[of WRecv "s\<lparr>wg := wg s + 1\<rparr>"]) (simp_all add: worker_pc_step_def)
  next
    case WRecv
    with w ns rc have "\<forall>n. mpc s \<noteq> MSend n" "closed s" by simp_all
    with WRecv show ?thesis
      by (intro goal[of WExit s]) (simp_all add: worker_pc_step_def split: main_pc.splits)
  next
    case (WStart f)
    then show ?thesis
      by (intro goal[of "WBuild f" "s\<lparr>trace := trace s @ [Building i (Name f)]\<rparr>"])
        (simp_all add: worker_pc_step_def)
  next
    case (WBuild f)
    show ?thesis
    proof (cases "Language f = []")
      case True
      with WBuild show ?thesis
        by (intro goal[of "WDone f" "s\<lparr>trace := trace s @ [NoLanguage]\<rparr>"])
          (simp_all add: worker_pc_step_def)
    next
      case False
      with WBuild show ?thesis
        by (intro goal[of "WDone f" "s\<lparr>trace := trace s @ [call cfg f],
              status := (if fatal cfg (call cfg f) then Exited else status s)\<rparr>"])
          (simp_all add: worker_pc_step_def)
    qed
  next
    case (WDone f)
    then show ?thesis
      by (intro goal[of WRecv "s\<lparr>trace := trace s @ [BuildingDone i (Name f)]\<rparr>"])
        (simp_all add: worker_pc_step_def)
  next
    case WExit
    then show ?thesis
      by (intro goal[of WFinish "s\<lparr>trace := trace s @ [WorkerDone i]\<rparr>"])
        (simp_all add: worker_pc_step_def)
  next
    case WFinish
    with w fi have "0 < wg s" by simp
    with WFinish show ?thesis
      by (intro goal[of WGone "s\<lparr>wg := wg s - 1\<rparr>"]) (simp_all add: worker_pc_step_def)
  next
    case WGone
    with w ng show ?thesis by simp
  qed
qed

lemma main_progress:
  assumes r: "status s = Running" and si: "send_inv cfg s"
    and m: "\<forall>n. mpc s \<noteq> MSend n" "mpc s \<noteq> MReturned" "mpc s = MWait \<longrightarrow> wg s = 0"
  shows "\<exists>s'. step cfg Main s = Some s' \<and> potential cfg s' < potential cfg s"
proof (cases "mpc s")
  case (MSpawn i)
  show ?thesis
  proof (cases "i < queueDepth cfg")
    case True
    then have "5 * nat (queueDepth cfg - (i + 1)) + 5 = 5 * nat (queueDepth cfg - i)" by simp
    with True MSpawn r show ?thesis
      by (simp add: step_def main_step_def potential_def main_rem_def held_def)
  next
    case False
    with MSpawn r show ?thesis
      by (simp add: step_def main_step_def potential_def main_rem_def held_def)
  qed
next
  case (MRange n)
  with si have "n \<le> length (Functions cfg)" by (simp add: send_inv_def)
  with MRange r show ?thesis
    by (auto simp: step_def main_step_def potential_def main_rem_def held_def)
next
  case (MSend n)
  with m show ?thesis by simp
next
  case MClose
  with r show ?thesis by (simp add: step_def main_step_def potential_def main_rem_def held_def)
next
  case MWait
  with r m show ?thesis by (simp add: step_def main_step_def potential_def main_rem_def held_def)
next
  case MReturned
  with m show ?thesis by simp
qed

lemma some_step_lowers_potential:
  assumes q: "1 \<le> queueDepth cfg" and l: "live cfg s" and nr: "mpc s \<noteq> MReturned"
  shows "\<exists>a s'. step cfg a s = Some s' \<and> potential cfg s' < potential cfg s"
proof -
  from l have r: "status s = Running" and wi: "wg_inv s" and si: "send_inv cfg s"
    and ci: "closed_inv s" and sp: "spawn_inv cfg s" and oi: "open_inv s"
    by (simp_all add: live_def dispatch_inv_def)
  show ?thesis
  proof (cases "(\<exists>n. mpc s = MSend n) \<or> (mpc s = MWait \<and> wg s \<noteq> 0)")
    case False
    with main_progress[OF r si _ nr] show ?thesis by blast
  next
    case True
    then consider n where "mpc s = MSend n" | "mpc s = MWait" "wg s \<noteq> 0" by blast
    then show ?thesis
    proof cases
      case 1
      with si have n: "n < length (Functions cfg)" by (simp add: send_inv_def)
      from 1 sp have "map fst (workers s) = map int [0..<nat (queueDepth cfg)]"
        by (simp add: spawn_inv_def)
      from arg_cong[OF this, of length] q have j: "0 < length (workers s)" by simp
      from 1 ci have nc: "\<not> closed s" by (simp add: closed_inv_def)
      show ?thesis
      proof (cases "snd (workers s ! 0) = WRecv")
        case True
        from worker_handoff[OF r j True 1, of cfg] obtain s' where
          s': "step cfg (Worker 0) s = Some s'" "mpc s' = MRange (Suc n)"
            "held worker_rem s' = held worker_rem s + 3"
          by blast
        from s'(2,3) 1 n have "potential cfg s' < potential cfg s"
          by (simp add: potential_def main_rem_def)
        with s'(1) show ?thesis by blast
      next
        case False
        from j have "workers s ! 0 \<in> set (workers s)" by (rule nth_mem)
        with oi nc have "snd (workers s ! 0) \<noteq> WGone" "snd (workers s ! 0) \<noteq> WFinish"
          by (auto simp: open_inv_def)
        with False worker_advance[OF r j, of cfg] obtain s' where
          s': "step cfg (Worker 0) s = Some s'" "mpc s' = mpc s"
            "Suc (held worker_rem s') = held worker_rem s"
          by auto
        from s'(2,3) have "potential cfg s' < potential cfg s" by (simp add: potential_def)
        with s'(1) show ?thesis by blast
      qed
    next
      case 2
      from 2(2) wi have "held active s \<noteq> 0" by (simp add: wg_inv_def)
      then have "\<exists>w \<in> set (workers s). active (snd w) \<noteq> 0"
        unfolding held_def by (metis (mono_tags, lifting) sum_list_all_zero)
      then obtain j where j: "j < length (workers s)" "active (snd (workers s ! j)) \<noteq> 0"
        by (auto simp: in_set_conv_nth)
      from 2(1) ci have c: "closed s" by (simp add: closed_inv_def)
      from j(2) have ng: "snd (workers s ! j) \<noteq> WGone" by (auto simp: active_def)
      from held_nth_le[OF j(1), of active] j(2) wi have "0 < wg s" by (simp add: wg_inv_def)
      with worker_advance[OF r j(1), of cfg] 2(1) c ng obtain s' where
        s': "step cfg (Worker j) s = Some s'" "mpc s' = mpc s"
          "Suc (held worker_rem s') = held worker_rem s"
        by auto
      from s'(2,3) have "potential cfg s' < potential cfg s" by (simp add: potential_def)
      with s'(1) show ?thesis by blast
    qed
  qed
qed

lemma exec_Cons_step:
  "step cfg a s = Some s' \<Longrightarrow> exec cfg s (a # ext) = exec cfg s' ext"
  by (simp add: exec_def sched_step_def)

lemma live_can_return:
  assumes q: "1 \<le> queueDepth cfg" and nf: "\<forall>e. \<not> fatal cfg e"
  shows "live cfg s \<Longrightarrow> \<exists>ext. mpc (exec cfg s ext) = MReturned"
proof (induction "potential cfg s" arbitrary: s rule: less_induct)
  case less
  show ?case
  proof (cases "mpc s = MReturned")
    case True
    then have "mpc (exec cfg s []) = MReturned" by (simp add: exec_def)
    then show ?thesis by blast
  next
    case False
    from some_step_lowers_potential[OF q less.prems False] obtain a s' where
      s': "step cfg a s = Some s'" "potential cfg s' < potential cfg s"
      by blast
    have "live cfg s'" using nf less.prems s'(1) by (rule live_step)
    from less.hyps[OF s'(2) this] obtain ext where "mpc (exec cfg s' ext) = MReturned"
      by blast
    with exec_Cons_step[OF s'(1)] have "mpc (exec cfg s (a # ext)) = MReturned" by simp
    then show ?thesis by blast
  qed
qed

lemma build_append: "build cfg (sched @ ext) = exec cfg (build cfg sched) ext"
  by (simp add: build_def exec_def)

lemma build_can_return:
  assumes "1 \<le> queueDepth cfg" and "\<forall>e. \<not> fatal cfg e"
  shows "\<exists>ext. mpc (build cfg (sched @ ext)) = MReturned"
  unfolding build_append using assms live_build[OF assms(2)] by (rule live_can_return)

section \<open>Every valid function is built exactly once\<close>





section \<open>Skipped functions and functions without a language\<close>

lemma skipped_mem: "(n \<in> set (skipped tr)) = (Skipping n \<in> set tr)"
proof (induction tr)
  case Nil
  then show ?case by simp
next
  case (Cons e tr)
  then show ?case by (cases e) (auto simp: skipped_def)
qed

lemma started_mem: "(n \<in> set (started tr)) = (\<exists>i. Building i n \<in> set tr)"
proof (induction tr)
  case Nil
  then show ?case by simp
next
  case (Cons e tr)
  then show ?case by (cases e) (auto simp: started_def)
qed

lemma built_name_mem:
  "(n \<in> set (built_name e)) = (\<exists>img h l nc sq sw args. e = BuildImage img h n l nc sq sw args)"
  by (cases e) auto

lemma built_mem:
  "(n \<in> set (built tr)) =
   (\<exists>img h l nc sq sw args. BuildImage img h n l nc sq sw args \<in> set tr)"
proof -
  have "(n \<in> set (built tr)) = (\<exists>e \<in> set tr. n \<in> set (built_name e))"
    by (simp add: built_def)
  also have "\<dots> = (\<exists>img h l nc sq sw args. BuildImage img h n l nc sq sw args \<in> set tr)"
    unfolding built_name_mem by blast
  finally show ?thesis .
qed

lemma held_receiving_le: "held receiving s \<subseteq># held unfinished s"
  unfolding held_def
  by (rule sum_list_subset_mset) (simp add: receiving_def unfinished_def split: worker_pc.splits)


lemma built_subset:
  assumes "dispatch_inv cfg s"
  shows "set (built (trace s)) \<subseteq> set (map Name (filter (\<lambda>f. Language f \<noteq> []) (enqueued cfg s)))"
proof -
  from assms have "mset (built (trace s)) \<subseteq>#
      mset (map Name (filter (\<lambda>f. Language f \<noteq> []) (enqueued cfg s)))"
    by (metis dispatch_inv_def built_inv_def mset_subset_eq_add_left)
  from set_mset_mono[OF this] show ?thesis by simp
qed



lemma finished_mem: "(n \<in> set (finished tr)) = (\<exists>i. BuildingDone i n \<in> set tr)"
proof (induction tr)
  case Nil
  then show ?case by simp
next
  case (Cons e tr)
  then show ?case by (cases e) (auto simp: finished_def)
qed

text \<open>
  C6. Let entry \<open>n\<close> of the FunctionSet be a function that is not skipped and whose
  \<^verbatim>\<open>Language\<close> is empty, the keys being distinct. No \<^verbatim>\<open>BuildImage\<close> call ever carries
  its name. When \<^verbatim>\<open>build\<close> has returned, the output holds exactly one start marker and
  exactly one done marker with its name, and the rest of the batch went through: the
  names of the \<^verbatim>\<open>BuildImage\<close> calls are, up to order, the keys of the functions that
  are not skipped and have a language. With a depth of at least one and a Build Executor
  that does not end the process, every schedule can go on so that \<^verbatim>\<open>build\<close> returns.
\<close>

theorem empty_language_not_built:
  assumes "distinct (map fst (Functions cfg))" and "n < length (Functions cfg)"
    and "\<not> SkipBuild (snd (Functions cfg ! n))" and "Language (snd (Functions cfg ! n)) = []"
  shows "(\<forall>img h l nc sq sw args.
            BuildImage img h (fst (Functions cfg ! n)) l nc sq sw args
              \<notin> set (trace (build cfg sched)))
       \<and> (mpc (build cfg sched) = MReturned \<longrightarrow>
            count_list (started (trace (build cfg sched))) (fst (Functions cfg ! n)) = 1
            \<and> count_list (finished (trace (build cfg sched))) (fst (Functions cfg ! n)) = 1
            \<and> (\<exists>i. Building i (fst (Functions cfg ! n)) \<in> set (trace (build cfg sched)))
            \<and> (\<exists>i. BuildingDone i (fst (Functions cfg ! n)) \<in> set (trace (build cfg sched)))
            \<and> mset (built (trace (build cfg sched))) =
                mset (map fst (filter (\<lambda>e. \<not> SkipBuild (snd e) \<and> Language (snd e) \<noteq> [])
                  (Functions cfg))))
       \<and> (1 \<le> queueDepth cfg \<and> (\<forall>e. \<not> fatal cfg e) \<longrightarrow>
            (\<exists>ext. mpc (build cfg (sched @ ext)) = MReturned))"
proof -
  let ?s = "build cfg sched" and ?k = "fst (Functions cfg ! n)"
  have inv: "dispatch_inv cfg ?s" by (rule dispatch_inv_build)
  have "?k \<notin> set (map Name (filter (\<lambda>f. Language f \<noteq> []) (enqueued cfg ?s)))"
    unfolding names_valid_enqueued using key_mem_filter_take[OF assms(1,2)] assms(4) by simp
  with built_subset[OF inv] have "?k \<notin> set (built (trace ?s))" by blast
  then have nb: "\<forall>img h l nc sq sw args. BuildImage img h ?k l nc sq sw args \<notin> set (trace ?s)"
    by (simp add: built_mem)
  have ret: "count_list (started (trace ?s)) ?k = 1 \<and> count_list (finished (trace ?s)) ?k = 1
      \<and> (\<exists>i. Building i ?k \<in> set (trace ?s)) \<and> (\<exists>i. BuildingDone i ?k \<in> set (trace ?s))
      \<and> mset (built (trace ?s)) =
          mset (map fst (filter (\<lambda>e. \<not> SkipBuild (snd e) \<and> Language (snd e) \<noteq> [])
            (Functions cfg)))"
    if r: "mpc ?s = MReturned"
  proof -
    from inv r have u: "held unfinished ?s = {#}" by (simp add: dispatch_inv_def returned_inv_def)
    with held_receiving_le[of ?s] have rc: "held receiving ?s = {#}" by simp
    from u held_unbuilt_le[of ?s] have ub: "held unbuilt ?s = {#}" by simp
    have p: "pos cfg ?s = length (Functions cfg)" using r by (rule pos_returned)
    have "count (mset (map fst (filter (\<lambda>e. \<not> SkipBuild (snd e))
        (take (pos cfg ?s) (Functions cfg))))) ?k =
        (if n < pos cfg ?s \<and> \<not> SkipBuild (snd (Functions cfg ! n)) then 1 else 0)"
      by (rule key_count_filter_take[OF assms(1,2)])
    with assms(2,3) p have names: "count (mset (map Name (enqueued cfg ?s))) ?k = 1"
      unfolding names_enqueued by simp
    from inv rc have "mset (started (trace ?s)) = mset (map Name (enqueued cfg ?s))"
      by (simp add: dispatch_inv_def started_inv_def)
    with names have s1: "count_list (started (trace ?s)) ?k = 1"
      by (metis count_mset)
    from inv u have "mset (finished (trace ?s)) = mset (map Name (enqueued cfg ?s))"
      by (simp add: dispatch_inv_def finished_inv_def)
    with names have f1: "count_list (finished (trace ?s)) ?k = 1"
      by (metis count_mset)
    from s1 have "?k \<in> set (started (trace ?s))"
      by (metis count_list_0_iff zero_neq_one)
    then have s2: "\<exists>i. Building i ?k \<in> set (trace ?s)" by (simp add: started_mem)
    from f1 have "?k \<in> set (finished (trace ?s))"
      by (metis count_list_0_iff zero_neq_one)
    then have f2: "\<exists>i. BuildingDone i ?k \<in> set (trace ?s)" by (simp add: finished_mem)
    from inv ub have "mset (built (trace ?s)) =
        mset (map Name (filter (\<lambda>f. Language f \<noteq> []) (enqueued cfg ?s)))"
      by (simp add: dispatch_inv_def built_inv_def)
    then have "mset (built (trace ?s)) =
        mset (map fst (filter (\<lambda>e. \<not> SkipBuild (snd e) \<and> Language (snd e) \<noteq> [])
          (Functions cfg)))"
      unfolding names_valid_enqueued p by simp
    with s1 f1 s2 f2 show ?thesis by blast
  qed
  have "\<exists>ext. mpc (build cfg (sched @ ext)) = MReturned"
    if "1 \<le> queueDepth cfg" "\<forall>e. \<not> fatal cfg e"
    using that by (rule build_can_return)
  with nb ret show ?thesis by blast
qed

theorem empty_language_not_built_witness:
  "mpc (build (scenario 2) sched_two_workers) = MReturned
   \<and> count_list (started (trace (build (scenario 2) sched_two_workers))) ''c'' = 1
   \<and> count_list (finished (trace (build (scenario 2) sched_two_workers))) ''c'' = 1
   \<and> (\<forall>img h l nc sq sw args.
        BuildImage img h ''c'' l nc sq sw args \<notin> set (trace (build (scenario 2) sched_two_workers)))
   \<and> mset (built (trace (build (scenario 2) sched_two_workers))) = {#''a''#}"
proof -
  have r: "mpc (build (scenario 2) sched_two_workers) = MReturned"
    by (simp add: run_two_workers)
  have "distinct (map fst (Functions (scenario 2)))" "2 < length (Functions (scenario 2))"
    "\<not> SkipBuild (snd (Functions (scenario 2) ! 2))"
    "Language (snd (Functions (scenario 2) ! 2)) = []"
    by (simp_all add: scenario_def fn_c_def)
  from empty_language_not_built[OF this, of sched_two_workers] r
  have "(\<forall>img h l nc sq sw args. BuildImage img h (fst (Functions (scenario 2) ! 2)) l nc sq sw args
            \<notin> set (trace (build (scenario 2) sched_two_workers)))
      \<and> count_list (started (trace (build (scenario 2) sched_two_workers)))
          (fst (Functions (scenario 2) ! 2)) = 1
      \<and> count_list (finished (trace (build (scenario 2) sched_two_workers)))
          (fst (Functions (scenario 2) ! 2)) = 1
      \<and> mset (built (trace (build (scenario 2) sched_two_workers))) =
          mset (map fst (filter (\<lambda>e. \<not> SkipBuild (snd e) \<and> Language (snd e) \<noteq> [])
            (Functions (scenario 2))))"
    by blast
  moreover have "fst (Functions (scenario 2) ! 2) = ''c''"
    "map fst (filter (\<lambda>e. \<not> SkipBuild (snd e) \<and> Language (snd e) \<noteq> [])
        (Functions (scenario 2))) = [''a'']"
    by (simp_all add: scenario_def fn_a_def fn_b_def fn_c_def)
  ultimately show ?thesis using r by simp
qed

section \<open>The workers are started first\<close>

text \<open>
  C7. Let \<open>queueDepth\<close> be at least one. In every state of every schedule: while the
  producer is in the loop that starts the workers, nothing has been handed over (the
  producer has visited no entry, every worker started so far stands before
  \<^verbatim>\<open>wg.Add(1)\<close> or in the receive, and nothing has been written); and once it has
  left that loop, the \<^verbatim>\<open>index\<close> arguments of the workers are \<open>0, ..., queueDepth - 1\<close> in
  this order, so there are exactly \<open>queueDepth\<close> workers with distinct identities, and
  no worker is started later.
\<close>

theorem workers_spawned_first:
  assumes "1 \<le> queueDepth cfg"
  shows "(spawning (build cfg sched) \<longrightarrow>
            pos cfg (build cfg sched) = 0 \<and> trace (build cfg sched) = []
            \<and> (\<forall>w \<in> set (workers (build cfg sched)). snd w = WAdd \<or> snd w = WRecv))
       \<and> (\<not> spawning (build cfg sched) \<longrightarrow>
            map fst (workers (build cfg sched)) = map int [0..<nat (queueDepth cfg)]
            \<and> int (length (workers (build cfg sched))) = queueDepth cfg
            \<and> distinct (map fst (workers (build cfg sched)))
            \<and> (\<forall>i \<in> set (map fst (workers (build cfg sched))). 0 \<le> i \<and> i < queueDepth cfg))"
proof -
  let ?s = "build cfg sched"
  have "dispatch_inv cfg ?s" by (rule dispatch_inv_build)
  then have inv: "spawn_inv cfg ?s" by (simp add: dispatch_inv_def)
  show ?thesis
  proof (cases "mpc ?s")
    case (MSpawn i)
    with inv show ?thesis by (simp add: spawn_inv_def spawning_def pos_def)
  next
    case (MRange m)
    with inv have m: "map fst (workers ?s) = map int [0..<nat (queueDepth cfg)]"
      by (simp add: spawn_inv_def)
    from arg_cong[OF m, of length] assms have "int (length (workers ?s)) = queueDepth cfg" by simp
    moreover have "distinct (map int [0..<nat (queueDepth cfg)])" by (simp add: distinct_map)
    ultimately show ?thesis using m MRange by (auto simp: spawning_def)
  next
    case (MSend m)
    with inv have m: "map fst (workers ?s) = map int [0..<nat (queueDepth cfg)]"
      by (simp add: spawn_inv_def)
    from arg_cong[OF m, of length] assms have "int (length (workers ?s)) = queueDepth cfg" by simp
    moreover have "distinct (map int [0..<nat (queueDepth cfg)])" by (simp add: distinct_map)
    ultimately show ?thesis using m MSend by (auto simp: spawning_def)
  next
    case MClose
    with inv have m: "map fst (workers ?s) = map int [0..<nat (queueDepth cfg)]"
      by (simp add: spawn_inv_def)
    from arg_cong[OF m, of length] assms have "int (length (workers ?s)) = queueDepth cfg" by simp
    moreover have "distinct (map int [0..<nat (queueDepth cfg)])" by (simp add: distinct_map)
    ultimately show ?thesis using m MClose by (auto simp: spawning_def)
  next
    case MWait
    with inv have m: "map fst (workers ?s) = map int [0..<nat (queueDepth cfg)]"
      by (simp add: spawn_inv_def)
    from arg_cong[OF m, of length] assms have "int (length (workers ?s)) = queueDepth cfg" by simp
    moreover have "distinct (map int [0..<nat (queueDepth cfg)])" by (simp add: distinct_map)
    ultimately show ?thesis using m MWait by (auto simp: spawning_def)
  next
    case MReturned
    with inv have m: "map fst (workers ?s) = map int [0..<nat (queueDepth cfg)]"
      by (simp add: spawn_inv_def)
    from arg_cong[OF m, of length] assms have "int (length (workers ?s)) = queueDepth cfg" by simp
    moreover have "distinct (map int [0..<nat (queueDepth cfg)])" by (simp add: distinct_map)
    ultimately show ?thesis using m MReturned by (auto simp: spawning_def)
  qed
qed

theorem workers_spawned_first_witness:
  "(1::int) \<le> 2 \<and> \<not> spawning (build (scenario 2) sched_one_worker)
   \<and> map fst (workers (build (scenario 2) sched_one_worker)) = [0, 1]
   \<and> spawning (build (scenario 2) [Main]) \<and> trace (build (scenario 2) [Main]) = []"
proof -
  have q: "1 \<le> queueDepth (scenario 2)" by (simp add: scenario_def)
  have a: "\<not> spawning (build (scenario 2) sched_one_worker)"
    by (simp add: run_one_worker spawning_def)
  have b: "spawning (build (scenario 2) [Main])"
    by (simp add: run_defs spawning_def)
  have "nat (queueDepth (scenario 2)) = Suc (Suc 0)" by (simp add: scenario_def)
  then have "map int [0..<nat (queueDepth (scenario 2))] = [0, 1]" by simp
  with workers_spawned_first[OF q, of sched_one_worker] workers_spawned_first[OF q, of "[Main]"] a b
  show ?thesis by simp
qed

section \<open>What the skipping notice prints\<close>

text \<open>
  C9. In every state of every schedule, the skipping notices printed so far are, in
  order, the \<^verbatim>\<open>Name\<close> fields of the records of the skipped entries that the producer
  has passed: the notice reads the record, in which the producer has not stored the map
  key (it stores the key only in the copy it sends). So a skipped entry whose record has
  an empty \<^verbatim>\<open>Name\<close> is reported with the empty name, whatever its key.
\<close>

theorem skip_notice_prints_record_name:
  "skipped (trace (build cfg sched)) =
     map (\<lambda>e. Name (snd e))
       (filter (\<lambda>e. SkipBuild (snd e)) (take (pos cfg (build cfg sched)) (Functions cfg)))
   \<and> (n < pos cfg (build cfg sched) \<and> SkipBuild (snd (Functions cfg ! n))
        \<and> Name (snd (Functions cfg ! n)) = []
      \<longrightarrow> Skipping [] \<in> set (trace (build cfg sched)))"
proof -
  let ?s = "build cfg sched"
  have inv: "dispatch_inv cfg ?s" by (rule dispatch_inv_build)
  then have eq: "skipped (trace ?s) = map (\<lambda>e. Name (snd e))
      (filter (\<lambda>e. SkipBuild (snd e)) (take (pos cfg ?s) (Functions cfg)))"
    by (simp add: dispatch_inv_def skipped_inv_def)
  have "Skipping [] \<in> set (trace ?s)"
    if n: "n < pos cfg ?s" "SkipBuild (snd (Functions cfg ! n))" "Name (snd (Functions cfg ! n)) = []"
  proof -
    from inv have "pos cfg ?s \<le> length (Functions cfg)"
      by (simp add: dispatch_inv_def pos_le)
    with n(1) have "Functions cfg ! n \<in> set (take (pos cfg ?s) (Functions cfg))"
      by (auto simp: in_set_conv_nth)
    with n(2,3) have "[] \<in> set (map (\<lambda>e. Name (snd e))
        (filter (\<lambda>e. SkipBuild (snd e)) (take (pos cfg ?s) (Functions cfg))))"
      by force
    with eq have "[] \<in> set (skipped (trace ?s))" by simp
    then show ?thesis by (simp add: skipped_mem)
  qed
  with eq show ?thesis by blast
qed

theorem skip_notice_prints_record_name_witness:
  "skipped (trace (build (scenario 2) sched_two_workers)) = [[]]
   \<and> Skipping [] \<in> set (trace (build (scenario 2) sched_two_workers))
   \<and> Skipping ''b'' \<notin> set (trace (build (scenario 2) sched_two_workers))"
proof -
  have "mpc (build (scenario 2) sched_two_workers) = MReturned"
    by (simp add: run_two_workers)
  then have "pos (scenario 2) (build (scenario 2) sched_two_workers) =
      length (Functions (scenario 2))"
    by (rule pos_returned)
  then have p: "pos (scenario 2) (build (scenario 2) sched_two_workers) = 3"
    by (simp add: scenario_def)
  have "map (\<lambda>e. Name (snd e)) (filter (\<lambda>e. SkipBuild (snd e))
      (take 3 (Functions (scenario 2)))) = [[]]"
    by (simp add: scenario_def fn_a_def fn_b_def fn_c_def)
  with skip_notice_prints_record_name[of "scenario 2" sched_two_workers 1] p
  have "skipped (trace (build (scenario 2) sched_two_workers)) = [[]]" by simp
  then show ?thesis by (simp add: skipped_mem[symmetric])
qed

section \<open>A depth that is not positive\<close>

lemma first_send_less:
  assumes "\<exists>e \<in> set (Functions cfg). \<not> SkipBuild (snd e)"
  shows "first_send cfg < length (Functions cfg)"
proof -
  have "length (takeWhile (\<lambda>e. SkipBuild (snd e)) (Functions cfg)) \<le> length (Functions cfg)"
    by (rule length_takeWhile_le)
  moreover have "takeWhile (\<lambda>e. SkipBuild (snd e)) (Functions cfg) \<noteq> Functions cfg"
    using assms by (auto simp: takeWhile_eq_all_conv)
  then have "length (takeWhile (\<lambda>e. SkipBuild (snd e)) (Functions cfg)) \<noteq> length (Functions cfg)"
    by (metis takeWhile_eq_take take_all order_refl)
  ultimately show ?thesis by (simp add: first_send_def)
qed

lemma first_send_not_skipped:
  assumes "first_send cfg < length (Functions cfg)"
  shows "\<not> SkipBuild (snd (Functions cfg ! first_send cfg))"
  using nth_length_takeWhile[of "\<lambda>e. SkipBuild (snd e)" "Functions cfg"] assms
  by (simp add: first_send_def)

lemma before_first_send_skipped:
  assumes "n < first_send cfg"
  shows "SkipBuild (snd (Functions cfg ! n))"
proof -
  let ?P = "\<lambda>e. SkipBuild (snd e)"
  from assms have n: "n < length (takeWhile ?P (Functions cfg))" by (simp add: first_send_def)
  then have "takeWhile ?P (Functions cfg) ! n \<in> set (takeWhile ?P (Functions cfg))"
    by (rule nth_mem)
  then have "?P (takeWhile ?P (Functions cfg) ! n)" by (rule set_takeWhileD[THEN conjunct2])
  with n show ?thesis by (simp add: takeWhile_nth)
qed

lemma blocked_main_step:
  assumes q: "queueDepth cfg \<le> 0" and l: "first_send cfg < length (Functions cfg)"
    and inv: "blocked_inv cfg s" and ns: "mpc s \<noteq> MSend (first_send cfg)"
  shows "\<exists>s'. main_step cfg s = Some s' \<and> blocked_inv cfg s' \<and> progress cfg s' = Suc (progress cfg s)"
proof -
  from inv ns consider "mpc s = MSpawn 0" | n where "n \<le> first_send cfg" "mpc s = MRange n"
    by (auto simp: blocked_inv_def)
  then show ?thesis
  proof cases
    case 1
    with q inv show ?thesis by (simp add: main_step_def blocked_inv_def progress_def)
  next
    case 2
    show ?thesis
    proof (cases "n = first_send cfg")
      case True
      with 2 l inv first_send_not_skipped[OF l] show ?thesis
        by (simp add: main_step_def blocked_inv_def progress_def)
    next
      case False
      with 2 have "n < first_send cfg" by simp
      with 2 l inv before_first_send_skipped[of n cfg] show ?thesis
        by (simp add: main_step_def blocked_inv_def progress_def)
    qed
  qed
qed

lemma blocked_sched_step:
  assumes q: "queueDepth cfg \<le> 0" and l: "first_send cfg < length (Functions cfg)"
    and inv: "blocked_inv cfg s"
  shows "blocked_inv cfg (sched_step cfg s a)
       \<and> min (first_send cfg + 2) (progress cfg s + count_list [a] Main)
           \<le> progress cfg (sched_step cfg s a)"
proof (cases a)
  case Main
  show ?thesis
  proof (cases "mpc s = MSend (first_send cfg)")
    case True
    with inv Main show ?thesis
      by (simp add: sched_step_def step_def main_step_def progress_def blocked_inv_def)
  next
    case False
    from blocked_main_step[OF q l inv False] obtain s' where
      "main_step cfg s = Some s'" "blocked_inv cfg s'" "progress cfg s' = Suc (progress cfg s)"
      by blast
    with inv Main show ?thesis by (simp add: sched_step_def step_def blocked_inv_def)
  qed
next
  case (Worker j)
  with inv show ?thesis
    by (simp add: sched_step_def step_def worker_step_def blocked_inv_def)
qed

lemma blocked_exec:
  assumes q: "queueDepth cfg \<le> 0" and l: "first_send cfg < length (Functions cfg)"
  shows "blocked_inv cfg s \<Longrightarrow>
         blocked_inv cfg (exec cfg s sched)
         \<and> min (first_send cfg + 2) (progress cfg s + count_list sched Main)
             \<le> progress cfg (exec cfg s sched)"
proof (induction sched arbitrary: s)
  case Nil
  then show ?case by (simp add: exec_def)
next
  case (Cons a sched)
  let ?t = "sched_step cfg s a"
  from blocked_sched_step[OF q l Cons.prems, of a]
  have t: "blocked_inv cfg ?t"
    and p: "min (first_send cfg + 2) (progress cfg s + count_list [a] Main) \<le> progress cfg ?t"
    by simp_all
  from Cons.IH[OF t]
  have i: "blocked_inv cfg (exec cfg ?t sched)"
    and r: "min (first_send cfg + 2) (progress cfg ?t + count_list sched Main)
              \<le> progress cfg (exec cfg ?t sched)"
    by simp_all
  have e: "exec cfg s (a # sched) = exec cfg ?t sched" by (simp add: exec_def)
  from p r have "min (first_send cfg + 2) (progress cfg s + count_list (a # sched) Main)
      \<le> progress cfg (exec cfg ?t sched)"
    by (cases a) (auto simp: min_def split: if_splits)
  with i show ?case unfolding e by simp
qed

text \<open>
  C8. Let \<open>queueDepth\<close> be zero or negative and let the FunctionSet hold a function that
  is not skipped. In every state of every schedule, no worker exists, \<^verbatim>\<open>build\<close> has not
  returned and the producer has not passed the first entry that is not skipped. As soon
  as the schedule has let the producer run often enough to reach that entry (once to
  leave the loop that starts no worker, once per skipped entry before it and once to
  enter the send), the producer stands in the send with that entry, and no goroutine
  can take a step: it stays there for ever. (What the Go runtime does with a process
  whose goroutines are all blocked is outside the model.)
\<close>

theorem nonpositive_depth_never_returns:
  assumes "queueDepth cfg \<le> 0" and "\<exists>e \<in> set (Functions cfg). \<not> SkipBuild (snd e)"
  shows "workers (build cfg sched) = []
       \<and> mpc (build cfg sched) \<noteq> MReturned
       \<and> pos cfg (build cfg sched) \<le> first_send cfg
       \<and> first_send cfg < length (Functions cfg)
       \<and> \<not> SkipBuild (snd (Functions cfg ! first_send cfg))
       \<and> (first_send cfg + 2 \<le> count_list sched Main \<longrightarrow>
            mpc (build cfg sched) = MSend (first_send cfg)
            \<and> (\<forall>a. step cfg a (build cfg sched) = None)
            \<and> (\<forall>ext. build cfg (sched @ ext) = build cfg sched))"
proof -
  let ?s = "build cfg sched"
  have l: "first_send cfg < length (Functions cfg)" using assms(2) by (rule first_send_less)
  have i0: "blocked_inv cfg init" by (simp add: blocked_inv_def init_def)
  from blocked_exec[OF assms(1) l i0, of sched]
  have inv: "blocked_inv cfg ?s"
    and pr: "min (first_send cfg + 2) (progress cfg init + count_list sched Main) \<le> progress cfg ?s"
    by (simp_all add: build_def)
  from inv have w: "workers ?s = []" and nr: "mpc ?s \<noteq> MReturned"
    and ps: "pos cfg ?s \<le> first_send cfg"
    by (auto simp: blocked_inv_def pos_def)
  have blocked: "mpc ?s = MSend (first_send cfg) \<and> (\<forall>a. step cfg a ?s = None)
      \<and> (\<forall>ext. build cfg (sched @ ext) = ?s)"
    if c: "first_send cfg + 2 \<le> count_list sched Main"
  proof -
    from pr c have "first_send cfg + 2 \<le> progress cfg ?s" by (simp add: progress_def init_def)
    with inv have m: "mpc ?s = MSend (first_send cfg)"
      by (auto simp: blocked_inv_def progress_def)
    have st: "step cfg a ?s = None" for a
      using m w by (cases a) (simp_all add: step_def main_step_def worker_step_def)
    have "exec cfg ?s ext = ?s" for ext
    proof (induction ext)
      case Nil
      show ?case by (simp add: exec_def)
    next
      case (Cons a ext)
      have "sched_step cfg ?s a = ?s" by (simp add: sched_step_def st)
      with Cons show ?case by (simp add: exec_def)
    qed
    then have "build cfg (sched @ ext) = ?s" for ext
      by (simp add: build_def exec_def)
    with m st show ?thesis by blast
  qed
  from w nr ps l first_send_not_skipped[OF l] blocked show ?thesis by blast
qed

theorem nonpositive_depth_never_returns_witness:
  "queueDepth (scenario 0) \<le> 0 \<and> first_send (scenario 0) = 0
   \<and> workers (build (scenario 0) [Main, Main, Worker 0, Main]) = []
   \<and> mpc (build (scenario 0) [Main, Main, Worker 0, Main]) = MSend 0
   \<and> (\<forall>a. step (scenario 0) a (build (scenario 0) [Main, Main, Worker 0, Main]) = None)"
proof -
  have q: "queueDepth (scenario 0) \<le> 0" by (simp add: scenario_def)
  have e: "\<exists>e \<in> set (Functions (scenario 0)). \<not> SkipBuild (snd e)"
    by (simp add: scenario_def fn_a_def)
  have f: "first_send (scenario 0) = 0" by (simp add: first_send_def scenario_def fn_a_def)
  have c: "first_send (scenario 0) + 2 \<le> count_list [Main, Main, Worker 0, Main] Main"
    by (simp add: f)
  from nonpositive_depth_never_returns[OF q e, of "[Main, Main, Worker 0, Main]"] c q f
  show ?thesis by simp
qed

section \<open>Returning before a worker has run\<close>

text \<open>
  When \<^verbatim>\<open>build\<close> has returned, no worker is between a receive and its done marker.
\<close>

lemma sum_list_mset_empty:
  fixes f :: "'a \<Rightarrow> 'b multiset"
  shows "sum_list (map f xs) = {#} \<Longrightarrow> \<forall>x \<in> set xs. f x = {#}"
  by (induction xs) auto

lemma no_worker_mid_build_at_return:
  assumes "mpc (build cfg sched) = MReturned"
  shows "\<forall>w \<in> set (workers (build cfg sched)). holds (snd w) = []"
proof -
  let ?s = "build cfg sched"
  have "dispatch_inv cfg ?s" by (rule dispatch_inv_build)
  with assms have "sum_list (map (\<lambda>w. unfinished (snd w)) (workers ?s)) = {#}"
    by (simp add: dispatch_inv_def returned_inv_def held_def)
  then have "\<forall>w \<in> set (workers ?s). unfinished (snd w) = {#}"
    by (rule sum_list_mset_empty)
  then show ?thesis
    by (auto simp: unfinished_def holds_def split: worker_pc.splits)
qed

text \<open>
  C2. The claim is that \<^verbatim>\<open>build\<close> returns only after every started worker has seen
  the closed channel and left its loop. The code does not keep it:
  \<^verbatim>\<open>wg.Add(1)\<close> is the first statement of the worker goroutine, not a statement before
  the \<^verbatim>\<open>go\<close> statement. In \<open>scenario 2\<close> under \<open>sched_one_worker\<close> the second worker has
  not run when \<^verbatim>\<open>wg.Wait()\<close> finds the counter at zero: \<^verbatim>\<open>build\<close> returns while that
  worker still stands before \<^verbatim>\<open>wg.Add(1)\<close>, and the worker sees the closed channel and
  prints its last line only afterwards.
\<close>

theorem build_returns_before_worker_ran:
  "mpc (build (scenario 2) sched_one_worker) = MReturned
   \<and> workers (build (scenario 2) sched_one_worker) = [(0, WGone), (1, WAdd)]
   \<and> WorkerDone 1 \<notin> set (trace (build (scenario 2) sched_one_worker))
   \<and> workers (build (scenario 2) (sched_one_worker @ [Worker 1, Worker 1, Worker 1, Worker 1]))
       = [(0, WGone), (1, WGone)]
   \<and> trace (build (scenario 2) (sched_one_worker @ [Worker 1, Worker 1, Worker 1, Worker 1]))
       = trace (build (scenario 2) sched_one_worker) @ [WorkerDone 1]"
proof -
  have "build (scenario 2) (sched_one_worker @ [Worker 1, Worker 1, Worker 1, Worker 1]) =
      exec (scenario 2) (build (scenario 2) sched_one_worker) [Worker 1, Worker 1, Worker 1, Worker 1]"
    by (simp add: build_def exec_def)
  then show ?thesis
    unfolding run_one_worker
    by (simp add: exec_def sched_step_def step_def worker_step_def worker_pc_step_def)
qed

section \<open>One worker builds in the order of the FunctionSet\<close>

lemma single_worker:
  assumes "spawn_inv cfg s" "queueDepth cfg = 1" "j < length (workers s)"
  shows "j = 0 \<and> workers s = [(0, snd (workers s ! 0))]"
proof -
  from assms(1,2) have "\<exists>k \<le> 1. map fst (workers s) = map int [0..<k]"
  proof (cases "mpc s")
    case (MSpawn i)
    with assms(1,2) have "nat i \<le> 1" "map fst (workers s) = map int [0..<nat i]"
      by (auto simp: spawn_inv_def)
    then show ?thesis by blast
  qed (auto simp: spawn_inv_def)
  then obtain k where k: "k \<le> 1" "map fst (workers s) = map int [0..<k]" by blast
  from arg_cong[OF k(2), of length] have "length (workers s) = k" by simp
  with k(1) assms(3) have l: "length (workers s) = 1" and j: "j = 0" and k1: "k = Suc 0"
    by simp_all
  have "map int [0..<Suc 0] = [0]" by simp
  with k(2) k1 have "map fst (workers s) = [0]" by simp
  with l have "workers s = [(0, snd (workers s ! 0))]"
    by (cases "workers s") auto
  with j show ?thesis by simp
qed

lemma build_events_snoc [simp]:
  "build_events (tr @ [e]) = build_events tr @ (if is_build_event e then [e] else [])"
  by (simp add: build_events_def)

lemma is_build_event_call [simp]: "is_build_event (call cfg f)"
  by (simp add: call_def)

lemma seq_inv_step:
  assumes inv: "seq_inv cfg s" and q: "queueDepth cfg = 1" and st: "step cfg a s = Some s'"
  shows "seq_inv cfg s'"
proof -
  from inv have sp: "spawn_inv cfg s" and si: "send_inv cfg s"
    and eq: "build_events (trace s) @ concat (map (pending cfg) (workers s)) =
        concat (map (block cfg 0) (enqueued cfg s))"
    by (simp_all add: seq_inv_def)
  have sp': "spawn_inv cfg s'" using sp st by (rule spawn_inv_step)
  have si': "send_inv cfg s'" using si st by (rule send_inv_step)
  have "build_events (trace s') @ concat (map (pending cfg) (workers s')) =
      concat (map (block cfg 0) (enqueued cfg s'))"
    using st
  proof (cases rule: step_cases)
    case main
    have e: "enqueued cfg s' = enqueued cfg s" using main(3) si by (rule enqueued_main)
    from main(3) eq show ?thesis
      unfolding e by (cases rule: main_step_cases) (simp_all add: pending_def)
  next
    case (worker j)
    from worker(3) show ?thesis
    proof (cases rule: worker_step_cases)
      case (Add i)
      from single_worker[OF sp q Add(1)] Add(2) have w: "j = 0" "workers s = [(0, WAdd)]" "i = 0"
        by auto
      have e: "enqueued cfg s' = enqueued cfg s" by (rule enqueued_eq) (simp add: Add pos_def)
      from eq show ?thesis unfolding e by (simp add: Add(3) w pending_def)
    next
      case (Recv i n)
      from single_worker[OF sp q Recv(1)] Recv(2) have w: "j = 0" "workers s = [(0, WRecv)]" "i = 0"
        by auto
      have e: "enqueued cfg s' = enqueued cfg s @ [descriptor (Functions cfg ! n)]"
        by (rule enqueued_recv[OF Recv(3) _ si]) (simp add: Recv)
      from eq show ?thesis unfolding e by (simp add: Recv(4) w pending_def)
    next
      case (RecvClosed i)
      from single_worker[OF sp q RecvClosed(1)] RecvClosed(2)
      have w: "j = 0" "workers s = [(0, WRecv)]" "i = 0" by auto
      have e: "enqueued cfg s' = enqueued cfg s" by (rule enqueued_eq) (simp add: RecvClosed pos_def)
      from eq show ?thesis unfolding e by (simp add: RecvClosed(5) w pending_def)
    next
      case (Start i f)
      from single_worker[OF sp q Start(1)] Start(2)
      have w: "j = 0" "workers s = [(0, WStart f)]" "i = 0" by auto
      have e: "enqueued cfg s' = enqueued cfg s" by (rule enqueued_eq) (simp add: Start pos_def)
      from eq show ?thesis unfolding e by (simp add: Start(3) w pending_def block_def)
    next
      case (NoLang i f)
      from single_worker[OF sp q NoLang(1)] NoLang(2)
      have w: "j = 0" "workers s = [(0, WBuild f)]" "i = 0" by auto
      have e: "enqueued cfg s' = enqueued cfg s" by (rule enqueued_eq) (simp add: NoLang pos_def)
      from eq show ?thesis unfolding e by (simp add: NoLang(3,4) w pending_def block_def)
    next
      case (Invoke i f)
      from single_worker[OF sp q Invoke(1)] Invoke(2)
      have w: "j = 0" "workers s = [(0, WBuild f)]" "i = 0" by auto
      have e: "enqueued cfg s' = enqueued cfg s" by (rule enqueued_eq) (simp add: Invoke pos_def)
      from eq show ?thesis unfolding e by (simp add: Invoke(3,4) w pending_def block_def)
    next
      case (Done i f)
      from single_worker[OF sp q Done(1)] Done(2)
      have w: "j = 0" "workers s = [(0, WDone f)]" "i = 0" by auto
      have e: "enqueued cfg s' = enqueued cfg s" by (rule enqueued_eq) (simp add: Done pos_def)
      from eq show ?thesis unfolding e by (simp add: Done(3) w pending_def)
    next
      case (Exit i)
      from single_worker[OF sp q Exit(1)] Exit(2)
      have w: "j = 0" "workers s = [(0, WExit)]" "i = 0" by auto
      have e: "enqueued cfg s' = enqueued cfg s" by (rule enqueued_eq) (simp add: Exit pos_def)
      from eq show ?thesis unfolding e by (simp add: Exit(3) w pending_def)
    next
      case (Panic i)
      from single_worker[OF sp q Panic(1)] Panic(2)
      have w: "j = 0" "workers s = [(0, WFinish)]" "i = 0" by auto
      have e: "enqueued cfg s' = enqueued cfg s" by (rule enqueued_eq) (simp add: Panic pos_def)
      from eq show ?thesis unfolding e by (simp add: Panic(4) w pending_def)
    next
      case (Finish i)
      from single_worker[OF sp q Finish(1)] Finish(2)
      have w: "j = 0" "workers s = [(0, WFinish)]" "i = 0" by auto
      have e: "enqueued cfg s' = enqueued cfg s" by (rule enqueued_eq) (simp add: Finish pos_def)
      from eq show ?thesis unfolding e by (simp add: Finish(4) w pending_def)
    qed
  qed
  with sp' si' show ?thesis by (simp add: seq_inv_def)
qed

lemma seq_inv_build:
  assumes "queueDepth cfg = 1"
  shows "seq_inv cfg (build cfg sched)"
  unfolding build_def
proof (rule exec_invariant[where P = "seq_inv cfg"])
  show "seq_inv cfg init"
    by (simp add: seq_inv_def spawn_inv_def send_inv_def init_def enqueued_def pos_def
        build_events_def)
next
  fix s a s' assume "seq_inv cfg s" "step cfg a s = Some s'"
  then show "seq_inv cfg s'" using assms by (simp add: seq_inv_step)
qed

lemma build_events_block [simp]: "build_events (block cfg i f) = block cfg i f"
  by (simp add: build_events_def block_def)

lemma build_events_append [simp]:
  "build_events (xs @ ys) = build_events xs @ build_events ys"
  by (simp add: build_events_def)

lemma skipped_append [simp]: "skipped (xs @ ys) = skipped xs @ skipped ys"
  by (simp add: skipped_def)

lemma skipped_block [simp]: "skipped (block cfg i f) = []"
  by (simp add: skipped_def block_def call_def)

lemma build_events_sequential:
  "build_events (sequential_build cfg es) =
   concat (map (block cfg 0) (map descriptor (filter (\<lambda>e. \<not> SkipBuild (snd e)) es)))"
  by (induction es) (auto simp: build_events_def block_def call_def)

lemma skipped_sequential:
  "skipped (sequential_build cfg es) =
   map (\<lambda>e. Name (snd e)) (filter (\<lambda>e. SkipBuild (snd e)) es)"
  by (induction es) (auto simp: skipped_def block_def call_def)

lemma sequential_build_append:
  "sequential_build cfg (xs @ ys) = sequential_build cfg xs @ sequential_build cfg ys"
  by (induction xs) simp_all

text \<open>
  C4. Let \<open>queueDepth\<close> be one. In every state of every schedule, the build events
  written so far (start markers, \<^verbatim>\<open>BuildImage\<close> calls, language warnings and done
  markers) are an initial part of the build events of the sequential loop over the
  FunctionSet in its iteration order: one function's start marker, call and done marker
  are complete before the next function's start marker, and the functions come in the
  order of the FunctionSet. The skipping notices are an initial part of the notices of
  the sequential loop as well. When \<^verbatim>\<open>build\<close> has returned, both are complete: the
  dispatch has written the build events and the notices of the sequential loop; and
  unless the Build Executor ends the process, every schedule can go on so that
  \<^verbatim>\<open>build\<close> returns. (Only
  the place of a skipping notice between the build events can differ, since the
  producer prints it while the worker is at work.)
\<close>

theorem single_worker_is_sequential:
  assumes "queueDepth cfg = 1"
  shows "(\<exists>rest. build_events (trace (build cfg sched)) @ rest =
            build_events (sequential_build cfg (Functions cfg)))
       \<and> (\<exists>rest. skipped (trace (build cfg sched)) @ rest =
            skipped (sequential_build cfg (Functions cfg)))
       \<and> (mpc (build cfg sched) = MReturned \<longrightarrow>
            build_events (trace (build cfg sched)) =
              build_events (sequential_build cfg (Functions cfg))
            \<and> skipped (trace (build cfg sched)) =
              skipped (sequential_build cfg (Functions cfg)))
       \<and> ((\<forall>e. \<not> fatal cfg e) \<longrightarrow> (\<exists>ext. mpc (build cfg (sched @ ext)) = MReturned))"
proof -
  let ?s = "build cfg sched" and ?fs = "Functions cfg"
  let ?p = "pos cfg ?s"
  have inv: "dispatch_inv cfg ?s" by (rule dispatch_inv_build)
  have "seq_inv cfg ?s" using assms by (rule seq_inv_build)
  then have eq: "build_events (trace ?s) @ concat (map (pending cfg) (workers ?s)) =
      concat (map (block cfg 0) (enqueued cfg ?s))"
    by (simp add: seq_inv_def)
  have split: "sequential_build cfg ?fs =
      sequential_build cfg (take ?p ?fs) @ sequential_build cfg (drop ?p ?fs)"
    by (simp add: sequential_build_append[symmetric])
  have b: "build_events (sequential_build cfg (take ?p ?fs)) =
      build_events (trace ?s) @ concat (map (pending cfg) (workers ?s))"
    unfolding eq by (simp add: build_events_sequential enqueued_def)
  have k: "skipped (sequential_build cfg (take ?p ?fs)) = skipped (trace ?s)"
    using inv by (simp add: skipped_sequential dispatch_inv_def skipped_inv_def)
  have one: "\<exists>rest. build_events (trace ?s) @ rest = build_events (sequential_build cfg ?fs)"
  proof
    show "build_events (trace ?s) @ (concat (map (pending cfg) (workers ?s))
        @ build_events (sequential_build cfg (drop ?p ?fs))) =
        build_events (sequential_build cfg ?fs)"
      using arg_cong[OF split, of build_events] by (simp add: b)
  qed
  have two: "\<exists>rest. skipped (trace ?s) @ rest = skipped (sequential_build cfg ?fs)"
  proof
    show "skipped (trace ?s) @ skipped (sequential_build cfg (drop ?p ?fs)) =
        skipped (sequential_build cfg ?fs)"
      using arg_cong[OF split, of skipped] by (simp add: k)
  qed
  have three: "build_events (trace ?s) = build_events (sequential_build cfg ?fs)
      \<and> skipped (trace ?s) = skipped (sequential_build cfg ?fs)"
    if r: "mpc ?s = MReturned"
  proof -
    have p: "?p = length ?fs" using r by (rule pos_returned)
    from no_worker_mid_build_at_return[OF r]
    have "\<forall>w \<in> set (workers ?s). pending cfg w = []"
      by (auto simp: pending_def holds_def split: worker_pc.splits)
    then have "concat (map (pending cfg) (workers ?s)) = []" by simp
    with b k p show ?thesis by simp
  qed
  have "\<exists>ext. mpc (build cfg (sched @ ext)) = MReturned" if "\<forall>e. \<not> fatal cfg e"
    by (rule build_can_return) (use assms that in simp_all)
  with one two three show ?thesis by blast
qed

lemma run_single:
  "build (scenario 1) sched_single =
     \<lparr>status = Running, mpc = MReturned, workers = [(0, WGone)], wg = 0, closed = True,
      trace = [Skipping [], Building 0 ''a'',
        BuildImage ''img/a'' ''./a'' ''a'' ''node'' False False False Map.empty,
        BuildingDone 0 ''a'', Building 0 ''c'', NoLanguage, BuildingDone 0 ''c'', WorkerDone 0]\<rparr>"
  by (simp add: run_defs sched_single_def)

theorem single_worker_is_sequential_witness:
  "queueDepth (scenario 1) = 1 \<and> mpc (build (scenario 1) sched_single) = MReturned
   \<and> build_events (trace (build (scenario 1) sched_single)) =
       [Building 0 ''a'', BuildImage ''img/a'' ''./a'' ''a'' ''node'' False False False Map.empty,
        BuildingDone 0 ''a'', Building 0 ''c'', NoLanguage, BuildingDone 0 ''c'']
   \<and> build_events (trace (build (scenario 1) sched_single)) =
       build_events (sequential_build (scenario 1) (Functions (scenario 1)))
   \<and> skipped (trace (build (scenario 1) sched_single)) =
       skipped (sequential_build (scenario 1) (Functions (scenario 1)))"
proof -
  have q: "queueDepth (scenario 1) = 1" by (simp add: scenario_def)
  have r: "mpc (build (scenario 1) sched_single) = MReturned" by (simp add: run_single)
  have b: "build_events (trace (build (scenario 1) sched_single)) =
      [Building 0 ''a'', BuildImage ''img/a'' ''./a'' ''a'' ''node'' False False False Map.empty,
       BuildingDone 0 ''a'', Building 0 ''c'', NoLanguage, BuildingDone 0 ''c'']"
    by (simp add: run_single build_events_def)
  from single_worker_is_sequential[OF q, of sched_single] q r b show ?thesis by simp
qed

section \<open>Errors and panics of parseMap\<close>

lemma parseMap_loop_well_formed:
  assumes "well_formed trim envvar"
  shows "parseMap_loop trim keyName (envvar # rest) m =
         parseMap_loop trim keyName rest
           (m(key_part (trim envvar) \<mapsto> value_part (trim envvar)))"
  using assms by (simp add: well_formed_def SplitN2_def index_def)

lemma parseMap_loop_no_equals:
  assumes "CHR ''='' \<notin> set (trim envvar)"
  shows "parseMap_loop trim keyName (envvar # rest) m = Panics 1 1"
  using assms by (simp add: SplitN2_def index_def)

lemma parseMap_loop_empty_name:
  assumes "CHR ''='' \<in> set (trim envvar)" "key_part (trim envvar) = []"
  shows "parseMap_loop trim keyName (envvar # rest) m =
         Fails (''Empty '' @ keyName @ '' name: ['' @ envvar @ '']'')"
  using assms by (simp add: SplitN2_def index_def)

lemma parseMap_loop_empty_value:
  assumes "CHR ''='' \<in> set (trim envvar)" "key_part (trim envvar) \<noteq> []"
    "value_part (trim envvar) = []"
  shows "parseMap_loop trim keyName (envvar # rest) m =
         Fails (''Empty '' @ keyName @ '' value: ['' @ envvar @ '']'')"
  using assms by (simp add: SplitN2_def index_def)

lemma parseMap_loop_prefix:
  assumes "\<forall>e \<in> set pre. well_formed trim e"
  shows "\<exists>m'. parseMap_loop trim keyName (pre @ rest) m = parseMap_loop trim keyName rest m'"
  using assms
proof (induction pre arbitrary: m)
  case Nil
  then show ?case by auto
next
  case (Cons e pre)
  then have "well_formed trim e" "\<forall>e \<in> set pre. well_formed trim e" by simp_all
  with Cons.IH show ?case by (simp add: parseMap_loop_well_formed del: parseMap_loop.simps)
qed

lemma parseMap_loop_fails:
  assumes "parseMap_loop trim keyName envvars m = Fails msg"
  shows "\<exists>e \<in> set envvars. CHR ''='' \<in> set (trim e) \<and>
           (key_part (trim e) = [] \<and> msg = ''Empty '' @ keyName @ '' name: ['' @ e @ '']''
            \<or> key_part (trim e) \<noteq> [] \<and> value_part (trim e) = []
              \<and> msg = ''Empty '' @ keyName @ '' value: ['' @ e @ '']'')"
  using assms
proof (induction envvars arbitrary: m)
  case Nil
  then show ?case by simp
next
  case (Cons e envvars)
  show ?case
  proof (cases "well_formed trim e")
    case True
    with Cons.prems have "parseMap_loop trim keyName envvars
        (m(key_part (trim e) \<mapsto> value_part (trim e))) = Fails msg"
      by (simp add: parseMap_loop_well_formed del: parseMap_loop.simps)
    from Cons.IH[OF this] show ?thesis by auto
  next
    case False
    show ?thesis
    proof (cases "CHR ''='' \<in> set (trim e)")
      case eq: True
      show ?thesis
      proof (cases "key_part (trim e) = []")
        case True
        with eq Cons.prems show ?thesis
          by (simp add: parseMap_loop_empty_name del: parseMap_loop.simps)
      next
        case k: False
        with eq False have "value_part (trim e) = []" by (simp add: well_formed_def)
        with eq k Cons.prems show ?thesis
          by (simp add: parseMap_loop_empty_value del: parseMap_loop.simps)
      qed
    next
      case False
      with Cons.prems show ?thesis
        by (simp add: parseMap_loop_no_equals del: parseMap_loop.simps)
    qed
  qed
qed

text \<open>
  C10. For every list of entries (each entry is read after \<^verbatim>\<open>strings.TrimSpace\<close>, as
  the code does): if \<^verbatim>\<open>parseMap\<close> returns an error, some entry has a \<^verbatim>\<open>=\<close> and an
  empty key before its first \<^verbatim>\<open>=\<close> or an empty value after it, and the error names
  that entry; and when the first entry that the loop does not accept holds no \<^verbatim>\<open>=\<close> at
  all, \<^verbatim>\<open>parseMap\<close> returns no error but panics reading \<^verbatim>\<open>s[1]\<close> of a slice of
  length one, and so does \<^verbatim>\<open>preRunBuild\<close>, which reports no parse failure.
\<close>

theorem parseMap_error_or_panic:
  "(parseMap trim envvars keyName = Fails msg \<longrightarrow>
      (\<exists>e \<in> set envvars. CHR ''='' \<in> set (trim e) \<and>
         (key_part (trim e) = [] \<and> msg = ''Empty '' @ keyName @ '' name: ['' @ e @ '']''
          \<or> key_part (trim e) \<noteq> [] \<and> value_part (trim e) = []
            \<and> msg = ''Empty '' @ keyName @ '' value: ['' @ e @ '']'')))
   \<and> ((\<forall>e \<in> set pre. well_formed trim e) \<and> CHR ''='' \<notin> set (trim x) \<longrightarrow>
        parseMap trim (pre @ x # post) keyName = Panics 1 1
        \<and> preRunBuild trim (pre @ x # post) = Panics 1 1)"
proof -
  have a: "\<exists>e \<in> set envvars. CHR ''='' \<in> set (trim e) \<and>
         (key_part (trim e) = [] \<and> msg = ''Empty '' @ keyName @ '' name: ['' @ e @ '']''
          \<or> key_part (trim e) \<noteq> [] \<and> value_part (trim e) = []
            \<and> msg = ''Empty '' @ keyName @ '' value: ['' @ e @ '']'')"
    if "parseMap trim envvars keyName = Fails msg"
    using that unfolding parseMap_def by (rule parseMap_loop_fails)
  have b: "parseMap trim (pre @ x # post) k = Panics 1 1"
    if "\<forall>e \<in> set pre. well_formed trim e" "CHR ''='' \<notin> set (trim x)" for k
  proof -
    from parseMap_loop_prefix[OF that(1), of k "x # post" Map.empty]
    obtain m' where "parseMap_loop trim k (pre @ x # post) Map.empty =
        parseMap_loop trim k (x # post) m'"
      by blast
    with that(2) show ?thesis
      unfolding parseMap_def by (simp add: parseMap_loop_no_equals del: parseMap_loop.simps)
  qed
  have c: "preRunBuild trim (pre @ x # post) = Panics 1 1"
    if "\<forall>e \<in> set pre. well_formed trim e" "CHR ''='' \<notin> set (trim x)"
    using b[OF that, of "''build-arg''"] by (simp add: preRunBuild_def)
  from a b c show ?thesis by blast
qed

theorem parseMap_error_or_panic_witness:
  "parseMap TrimSpace [''=v''] ''build-arg'' = Fails ''Empty build-arg name: [=v]''
   \<and> parseMap TrimSpace [''A=1'', ''NOEQ'', ''=v''] ''build-arg'' = Panics 1 1
   \<and> preRunBuild TrimSpace [''A=1'', ''NOEQ'', ''=v''] = Panics 1 1"
proof -
  have f: "parseMap TrimSpace [''=v''] ''build-arg'' = Fails ''Empty build-arg name: [=v]''"
    by (simp add: parseMap_def SplitN2_def index_def key_part_def value_part_def TrimSpace_def
        is_space_def)
  have w: "\<forall>e \<in> set [''A=1'']. well_formed TrimSpace e"
    by (simp add: well_formed_def key_part_def value_part_def TrimSpace_def is_space_def)
  have n: "CHR ''='' \<notin> set (TrimSpace ''NOEQ'')"
    by (simp add: TrimSpace_def is_space_def)
  from parseMap_error_or_panic[of TrimSpace "[''=v'']" "''build-arg''"
      "''Empty build-arg name: [=v]''" "[''A=1'']" "''NOEQ''" "[''=v'']"] f w n
  show ?thesis by simp
qed

section \<open>What runBuild checks before a single build\<close>

text \<open>
  C3, as the code has it. In single-function mode (no function came out of a YAML
  file): if the image, the handler or the function name is empty, \<^verbatim>\<open>runBuild\<close> returns
  an error and calls neither \<^verbatim>\<open>build\<close> nor \<^verbatim>\<open>BuildImage\<close>. The language is not among
  the checks: when the templates were pulled and the three fields are given,
  \<^verbatim>\<open>BuildImage\<close> is called with the language flag as it is, empty or not.
\<close>

theorem runBuild_checks_three_fields:
  assumes "parsedServices fl parsed = Inr []"
  shows "(image_flag fl = [] \<or> handler_flag fl = [] \<or> functionName fl = [] \<longrightarrow>
            (\<exists>msg. runBuild fl g parsed pullErr = ReturnsError msg))
       \<and> (pullErr = None \<and> image_flag fl \<noteq> [] \<and> handler_flag fl \<noteq> [] \<and> functionName fl \<noteq> [] \<longrightarrow>
            runBuild fl g parsed pullErr =
              CallsBuildImage
                (BuildImage (image_flag fl) (handler_flag fl) (functionName fl) (language_flag fl)
                   (nocache g) (squash g) (shrinkwrap g) (buildArgMap g)))"
  using assms by (cases pullErr) (auto simp: runBuild_def)

theorem runBuild_checks_three_fields_witness:
  "parsedServices (no_language_flags\<lparr>functionName := []\<rparr>) (Inr None) = Inr []
   \<and> runBuild (no_language_flags\<lparr>functionName := []\<rparr>) (scenario 1) (Inr None) None =
       ReturnsError ''please provide the deployed --name of your function''"
proof -
  have p: "parsedServices (no_language_flags\<lparr>functionName := []\<rparr>) (Inr None) = Inr []"
    by (simp add: parsedServices_def no_language_flags_def)
  have "runBuild (no_language_flags\<lparr>functionName := []\<rparr>) (scenario 1) (Inr None) None =
      ReturnsError ''please provide the deployed --name of your function''"
    by (simp add: runBuild_def p) (simp add: no_language_flags_def)
  with runBuild_checks_three_fields[OF p, of "scenario 1" None] p show ?thesis by simp
qed

text \<open>
  C3, as it is stated, fails for the language: with image, handler and name given and
  no language, \<^verbatim>\<open>runBuild\<close> returns no error and calls \<^verbatim>\<open>BuildImage\<close> with the empty
  language.
\<close>

theorem runBuild_empty_language_counterexample:
  "parsedServices no_language_flags (Inr None) = Inr []
   \<and> language_flag no_language_flags = []
   \<and> runBuild no_language_flags (scenario 1) (Inr None) None =
       CallsBuildImage (BuildImage ''img/fn'' ''./fn'' ''fn'' [] False False False Map.empty)"
  by (simp add: runBuild_def parsedServices_def no_language_flags_def scenario_def)

end
